theory Spec2Isabelle
  imports
    Complex_Main
    "HOL-Library.Product_Lexorder"
    "HOL-Library.Char_ord"
    "HOL-Library.List_Lexorder"
    "HOL-Library.Multiset"
    "HOL-Library.Sublist"
    "HOL-Library.AList"
begin

section \<open>Data model\<close>

text \<open>
  The canonical records of \<^verbatim>\<open>types/index.ts\<close>. A calendar date is the triple
  (year, month, day); with the lexicographic order on products the order on dates is the
  chronological one, which is also the order of the ISO strings \<^verbatim>\<open>YYYY-MM-DD\<close> that the
  API exchanges. An amount is a JavaScript \<^verbatim>\<open>number\<close>, a double: it is modelled by the
  real number that the double denotes, and arithmetic on numbers rounds the exact result to
  a double (\<open>to_double\<close> below). A field of type \<^verbatim>\<open>string | null\<close> is a
  \<open>string option\<close>.
\<close>

type_synonym date = "nat \<times> nat \<times> nat"

definition year_of :: "date \<Rightarrow> nat" where
  "year_of d = fst d"

definition month_of :: "date \<Rightarrow> nat" where
  "month_of d = fst (snd d)"

definition day_of :: "date \<Rightarrow> nat" where
  "day_of d = snd (snd d)"

text \<open>
  The check of month and day that \<^verbatim>\<open>parseISO\<close> of date-fns makes (\<^verbatim>\<open>isLeapYearIndex\<close>
  and \<^verbatim>\<open>validateDate\<close>, with the months counted from 1 here), and the dates that the
  backend can hold: the calendar dates of the years 1 to 9999.
\<close>

definition isLeapYearIndex :: "nat \<Rightarrow> bool" where
  "isLeapYearIndex year = (year mod 400 = 0 \<or> (year mod 4 = 0 \<and> year mod 100 \<noteq> 0))"

definition daysInMonth :: "nat \<Rightarrow> nat \<Rightarrow> nat" where
  "daysInMonth year m =
     (if m = 2 then (if isLeapYearIndex year then 29 else 28)
      else if m = 4 \<or> m = 6 \<or> m = 9 \<or> m = 11 then 30
      else 31)"

definition validateDate :: "date \<Rightarrow> bool" where
  "validateDate d =
     (1 \<le> month_of d \<and> month_of d \<le> 12 \<and>
      1 \<le> day_of d \<and> day_of d \<le> daysInMonth (year_of d) (month_of d))"

definition valid_date :: "date \<Rightarrow> bool" where
  "valid_date d = (1 \<le> year_of d \<and> year_of d \<le> 9999 \<and> validateDate d)"

text \<open>
  Decimal output: \<^verbatim>\<open>Number.prototype.toString\<close> on a natural number, \<^verbatim>\<open>padStart\<close>, and
  \<^verbatim>\<open>addLeadingZeros\<close> of date-fns, which is \<^verbatim>\<open>toString\<close> followed by \<^verbatim>\<open>padStart\<close> with
  zeros.
\<close>

definition digit_char :: "nat \<Rightarrow> char" where
  "digit_char d = char_of (48 + d)"

fun toString :: "nat \<Rightarrow> string" where
  "toString n = (if n < 10 then [digit_char n] else toString (n div 10) @ [digit_char (n mod 10)])"

declare toString.simps [simp del]

definition padStart :: "nat \<Rightarrow> char \<Rightarrow> string \<Rightarrow> string" where
  "padStart targetLength c s = replicate (targetLength - length s) c @ s"

definition addLeadingZeros :: "nat \<Rightarrow> nat \<Rightarrow> string" where
  "addLeadingZeros n targetLength = padStart targetLength (CHR ''0'') (toString n)"

text \<open>
  \<^verbatim>\<open>format(d, 'yyyy-MM')\<close> of date-fns on a date that is not invalid. The token
  \<^verbatim>\<open>yyyy\<close> writes \<^verbatim>\<open>signedYear > 0 ? signedYear : 1 - signedYear\<close> with leading zeros:
  the year 0 is 1 BC and comes out as \<^verbatim>\<open>0001\<close>.
\<close>

definition format_yyyy_MM :: "date \<Rightarrow> string" where
  "format_yyyy_MM d =
     addLeadingZeros (if 0 < year_of d then year_of d else 1 - year_of d) 4 @ ''-'' @
     addLeadingZeros (month_of d) 2"

text \<open>The ISO string \<^verbatim>\<open>YYYY-MM-DD\<close> of a date.\<close>

definition iso_date :: "date \<Rightarrow> string" where
  "iso_date d =
     addLeadingZeros (year_of d) 4 @ ''-'' @ addLeadingZeros (month_of d) 2 @ ''-'' @
     addLeadingZeros (day_of d) 2"

text \<open>The pair \<^verbatim>\<open>{ bank_name, account_name }\<close> that scopes every transaction.\<close>

record AccountRef =
  bank_name :: string
  account_name :: string

record ParsedTransaction = AccountRef +
  date :: date
  amount :: real
  description :: "string option"
  details :: "string option"
  category :: "string option"
  transaction_type :: "string option"
  is_special :: bool

text \<open>
  \<^verbatim>\<open>Transaction\<close> (the stored entity): a parsed transaction plus \<^verbatim>\<open>id\<close>,
  \<^verbatim>\<open>created_at\<close> and \<^verbatim>\<open>updated_at\<close>. The field \<^verbatim>\<open>id\<close> is named \<open>tx_id\<close> here.
\<close>

record Transaction = ParsedTransaction +
  tx_id :: nat
  created_at :: string
  updated_at :: string

text \<open>
  The errors that JavaScript raises: a \<^verbatim>\<open>TypeError\<close> when a field of \<^verbatim>\<open>undefined\<close> or
  \<^verbatim>\<open>null\<close> is read, a \<^verbatim>\<open>RangeError\<close> when an invalid date is formatted.
\<close>

datatype js_error = TypeError | RangeError

datatype warning_type = filtered_row | duplicate | parsing_error

record UploadWarning =
  wtype :: warning_type
  message :: string
  wdetails :: "(string \<times> string) list"

record HarmonizationResult =
  new_transactions :: "ParsedTransaction list"
  duplicate_transactions :: "ParsedTransaction list"

record CommitResult =
  inserted_count :: nat
  commit_message :: string

subsection \<open>JavaScript numbers\<close>

text \<open>
  A JavaScript number is a double, an infinity or \<^verbatim>\<open>NaN\<close>. A finite double is given by
  the real number it denotes (\<^verbatim>\<open>-0\<close> is not distinguished from \<^verbatim>\<open>0\<close>).
\<close>

datatype jsnumber = Finite real | PosInfinity | NegInfinity | NaN

text \<open>
  The binary exponent of a positive number \<open>a\<close>: the \<open>k\<close> with
  \<open>2 powi k \<le> a < 2 powi (k + 1)\<close>, found by halving or doubling \<open>a\<close> until it lies
  between 1 and 2.
\<close>

function binade :: "real \<Rightarrow> int" where
  "binade a =
     (if a \<le> 0 then 0
      else if 2 \<le> a then binade (a / 2) + 1
      else if a < 1 then binade (2 * a) - 1
      else 0)"
  by pat_completeness auto

termination
proof (relation "measure (\<lambda>a. nat \<bar>\<lfloor>log 2 a\<rfloor>\<bar>)")
  show "wf (measure (\<lambda>a. nat \<bar>\<lfloor>log 2 a\<rfloor>\<bar>))" by simp
next
  fix a :: real
  assume "\<not> a \<le> 0" and "2 \<le> a"
  then have "log 2 (a / 2) = log 2 a - 1" by (simp add: log_divide)
  then have f: "\<lfloor>log 2 (a / 2)\<rfloor> = \<lfloor>log 2 a\<rfloor> - 1" by simp
  have "1 \<le> log 2 a" using \<open>2 \<le> a\<close> by (simp add: le_log_iff)
  then have g: "1 \<le> \<lfloor>log 2 a\<rfloor>" by (simp add: le_floor_iff)
  from f g have "nat \<bar>\<lfloor>log 2 (a / 2)\<rfloor>\<bar> < nat \<bar>\<lfloor>log 2 a\<rfloor>\<bar>" by linarith
  then show "(a / 2, a) \<in> measure (\<lambda>a. nat \<bar>\<lfloor>log 2 a\<rfloor>\<bar>)" by simp
next
  fix a :: real
  assume "\<not> a \<le> 0" and "\<not> 2 \<le> a" and "a < 1"
  then have "log 2 (2 * a) = 1 + log 2 a" by (simp add: log_mult)
  then have f: "\<lfloor>log 2 (2 * a)\<rfloor> = \<lfloor>log 2 a\<rfloor> + 1" by simp
  have "log 2 a < 0" using \<open>a < 1\<close> \<open>\<not> a \<le> 0\<close> by simp
  then have g: "\<lfloor>log 2 a\<rfloor> < 0" by (simp add: floor_less_iff)
  from f g have "nat \<bar>\<lfloor>log 2 (2 * a)\<rfloor>\<bar> < nat \<bar>\<lfloor>log 2 a\<rfloor>\<bar>" by linarith
  then show "(2 * a, a) \<in> measure (\<lambda>a. nat \<bar>\<lfloor>log 2 a\<rfloor>\<bar>)" by simp
qed

declare binade.simps [simp del]

text \<open>
  Rounding to the nearest double, ties to even (IEEE 754 binary64, the rounding of every
  arithmetic operation and of every decimal literal in JavaScript). The doubles around
  \<open>x\<close> are the integer multiples of \<open>2 powi e\<close>, where \<open>e\<close> is the binary exponent of
  \<open>x\<close> less the 52 fraction bits, and the exponent is at least \<open>-1022\<close> (below it the
  doubles are subnormal and equally spaced). \<open>round_half_even\<close> picks the nearer of the
  two neighbouring integers and the even one at a tie. A result of magnitude \<open>2 ^ 1024\<close>
  is beyond the largest double and the value is an infinity.
\<close>

definition round_half_even :: "real \<Rightarrow> int" where
  "round_half_even q =
     (let n = \<lfloor>q\<rfloor>; r = q - of_int n
      in if r < 1 / 2 then n else if 1 / 2 < r then n + 1 else if even n then n else n + 1)"

definition to_double :: "real \<Rightarrow> jsnumber" where
  "to_double x =
     (if x = 0 then Finite 0
      else
        (let e = max (binade \<bar>x\<bar>) (- 1022) - 52;
             y = of_int (round_half_even (\<bar>x\<bar> / 2 powi e)) * 2 powi e
         in if 2 ^ 1024 \<le> y then (if x < 0 then NegInfinity else PosInfinity)
            else Finite (sgn x * y)))"

text \<open>
  The operators \<^verbatim>\<open>a + b\<close>, \<^verbatim>\<open>-a\<close> and \<^verbatim>\<open>a - b\<close> on numbers: the exact sum of two
  doubles is rounded, infinities of opposite sign add up to \<^verbatim>\<open>NaN\<close>, and \<^verbatim>\<open>NaN\<close>
  propagates. Negation is exact.
\<close>

fun js_add :: "jsnumber \<Rightarrow> jsnumber \<Rightarrow> jsnumber" where
  "js_add (Finite x) (Finite y) = to_double (x + y)"
| "js_add NaN b = NaN"
| "js_add a NaN = NaN"
| "js_add PosInfinity NegInfinity = NaN"
| "js_add NegInfinity PosInfinity = NaN"
| "js_add PosInfinity b = PosInfinity"
| "js_add NegInfinity b = NegInfinity"
| "js_add a PosInfinity = PosInfinity"
| "js_add a NegInfinity = NegInfinity"

fun js_neg :: "jsnumber \<Rightarrow> jsnumber" where
  "js_neg (Finite x) = Finite (- x)"
| "js_neg PosInfinity = NegInfinity"
| "js_neg NegInfinity = PosInfinity"
| "js_neg NaN = NaN"

definition js_sub :: "jsnumber \<Rightarrow> jsnumber \<Rightarrow> jsnumber" where
  "js_sub a b = js_add a (js_neg b)"

section \<open>Harmonizer\<close>

text \<open>
  Modelled from the spec: the storage collaborator's
  \<^verbatim>\<open>findTransactions(bank_name, account_name)\<close>; the storage layer is not part of the
  sources. It returns the stored transactions of one account, in storage order.
\<close>

definition findTransactions :: "Transaction list \<Rightarrow> string \<Rightarrow> string \<Rightarrow> Transaction list" where
  "findTransactions db b a = filter (\<lambda>s. bank_name s = b \<and> account_name s = a) db"

text \<open>
  Modelled from the spec: the duplicate key of the Harmonizer (section 4.3); the backend
  that implements it is not part of the sources. A stored transaction matches a candidate
  when \<^verbatim>\<open>date\<close>, \<^verbatim>\<open>amount\<close> and \<^verbatim>\<open>description\<close> are all equal.
\<close>

definition same_triple :: "ParsedTransaction \<Rightarrow> Transaction \<Rightarrow> bool" where
  "same_triple c s = (date s = date c \<and> amount s = amount c \<and> description s = description c)"

text \<open>
  Modelled from the spec: the classification of one candidate (section 4.3): query the
  stored transactions of the candidate's \<^verbatim>\<open>bank_name\<close> and \<^verbatim>\<open>account_name\<close>, and look
  for one with the same triple.
\<close>

definition is_duplicate :: "Transaction list \<Rightarrow> ParsedTransaction \<Rightarrow> bool" where
  "is_duplicate db c = list_ex (same_triple c) (findTransactions db (bank_name c) (account_name c))"

text \<open>
  Modelled from the spec: \<^verbatim>\<open>harmonize(candidates)\<close> (section 4.3); the backend endpoint
  behind \<^verbatim>\<open>POST /upload/harmonize\<close> is not part of the sources. Candidates are classified
  one by one in input order against the store, which harmonize does not change.
\<close>

fun harmonize_loop ::
  "Transaction list \<Rightarrow> ParsedTransaction list \<Rightarrow> ParsedTransaction list \<times> ParsedTransaction list"
where
  "harmonize_loop db [] = ([], [])"
| "harmonize_loop db (c # cs) =
     (let (news, dups) = harmonize_loop db cs
      in if is_duplicate db c then (news, c # dups) else (c # news, dups))"

definition harmonize :: "Transaction list \<Rightarrow> ParsedTransaction list \<Rightarrow> HarmonizationResult" where
  "harmonize db candidates =
     (let (news, dups) = harmonize_loop db candidates
      in \<lparr>new_transactions = news, duplicate_transactions = dups\<rparr>)"

text \<open>The words of the claims, as predicates to compare the Harmonizer with.\<close>

definition stored_match :: "Transaction list \<Rightarrow> ParsedTransaction \<Rightarrow> bool" where
  "stored_match db c =
     (\<exists>s. s \<in> set db \<and> bank_name s = bank_name c \<and> account_name s = account_name c \<and>
          date s = date c \<and> amount s = amount c \<and> description s = description c)"

text \<open>The scenario of section 8: a stored and a freshly parsed grocery purchase.\<close>

definition groceries :: ParsedTransaction where
  "groceries =
     \<lparr>bank_name = ''intesa'', account_name = ''main'', date = (2024, 1, 5), amount = -42,
      description = Some ''Groceries'', details = None, category = None,
      transaction_type = None, is_special = False\<rparr>"

definition stored_groceries :: Transaction where
  "stored_groceries =
     \<lparr>bank_name = ''intesa'', account_name = ''main'', date = (2024, 1, 5), amount = -42,
      description = Some ''Groceries'', details = Some ''card'', category = Some ''food'',
      transaction_type = None, is_special = False,
      tx_id = 1, created_at = ''2024-01-06T08:00:00'', updated_at = ''2024-01-06T08:00:00''\<rparr>"

definition rent :: ParsedTransaction where
  "rent =
     \<lparr>bank_name = ''intesa'', account_name = ''main'', date = (2024, 1, 7), amount = -800,
      description = Some ''Rent'', details = None, category = None,
      transaction_type = None, is_special = False\<rparr>"

section \<open>Commit Stage\<close>












section \<open>Preprocessing Orchestrator\<close>

text \<open>
  \<^verbatim>\<open>PreprocessingResult\<close> of \<^verbatim>\<open>types/index.ts\<close>. The interface declares \<^verbatim>\<open>date_range\<close> with
  two string fields; the spec lets the orchestrator leave it absent when nothing was
  parsed, so the field is optional here and \<open>None\<close> is the absent value.
\<close>

record DateRange =
  first_date :: date
  last_date :: date

record PreprocessingResult =
  transactions :: "ParsedTransaction list"
  warnings :: "UploadWarning list"
  date_range :: "DateRange option"
  saved_filename :: string

datatype preprocess_error = UnsupportedBankError | FileFormatError

text \<open>A spreadsheet cell and a raw row: the cells of one line, by column name.\<close>

datatype cell = TextCell string | NumberCell real | DateCell date | BlankCell

type_synonym RawRow = "(string \<times> cell) list"

record UploadedFile =
  file_name :: string
  file_content :: string

text \<open>
  Modelled from the spec: a Bank Parser (section 4.1); the two parsers of the backend are
  not part of the sources. For every input row a parser either emits a transaction or a
  warning, from the account context, the row's index and the row alone.
\<close>

type_synonym bank_parser = "AccountRef \<Rightarrow> nat \<Rightarrow> RawRow \<Rightarrow> UploadWarning + ParsedTransaction"

fun parse_rows ::
  "bank_parser \<Rightarrow> AccountRef \<Rightarrow> nat \<Rightarrow> RawRow list \<Rightarrow> ParsedTransaction list \<times> UploadWarning list"
where
  "parse_rows p ctx i [] = ([], [])"
| "parse_rows p ctx i (r # rs) =
     (let (txs, ws) = parse_rows p ctx (Suc i) rs
      in case p ctx i r of Inr t \<Rightarrow> (t # txs, ws) | Inl w \<Rightarrow> (txs, w # ws))"

text \<open>
  Modelled from the spec: the observed date range (section 4.2), the least and the
  greatest date of the parsed transactions, absent when there is none.
\<close>

definition date_range_of :: "ParsedTransaction list \<Rightarrow> DateRange option" where
  "date_range_of txs =
     (case map date txs of
        [] \<Rightarrow> None
      | d # ds \<Rightarrow> Some \<lparr>first_date = fold min ds d, last_date = fold max ds d\<rparr>)"

text \<open>
  Modelled from the spec: \<^verbatim>\<open>preprocess(file, bank_name, account_name)\<close> (section 4.2); the
  backend endpoint behind \<^verbatim>\<open>POST /upload/preprocess\<close> is not part of the sources. The
  registry of parsers, the File Reader (\<open>None\<close> when the file cannot be loaded into tabular
  form) and the name under which the file is saved are the orchestrator's collaborators.
\<close>

definition preprocess ::
  "(string \<Rightarrow> bank_parser option) \<Rightarrow> (UploadedFile \<Rightarrow> RawRow list option) \<Rightarrow>
   (UploadedFile \<Rightarrow> string) \<Rightarrow> UploadedFile \<Rightarrow> string \<Rightarrow> string \<Rightarrow>
   preprocess_error + PreprocessingResult"
where
  "preprocess registry load_table save_as file bank account =
     (case registry bank of
        None \<Rightarrow> Inl UnsupportedBankError
      | Some p \<Rightarrow>
          (case load_table file of
             None \<Rightarrow> Inl FileFormatError
           | Some rows \<Rightarrow>
               (let (txs, ws) = parse_rows p \<lparr>bank_name = bank, account_name = account\<rparr> 0 rows
                in Inr \<lparr>transactions = txs, warnings = ws, date_range = date_range_of txs,
                        saved_filename = save_as file\<rparr>)))"

text \<open>
  A sample parser, registry and File Reader for the scenarios of section 8: a row needs a
  date in column \<^verbatim>\<open>Data\<close> and a number in column \<^verbatim>\<open>Importo\<close>; the reader takes the file
  content as one row per character, \<^verbatim>\<open>g\<close> for a good row and anything else for a row
  whose date cannot be parsed.
\<close>

definition sample_parser :: bank_parser where
  "sample_parser ctx i r =
     (case (map_of r ''Data'', map_of r ''Importo'') of
        (Some (DateCell d), Some (NumberCell a)) \<Rightarrow>
          Inr \<lparr>bank_name = bank_name ctx, account_name = account_name ctx, date = d, amount = a,
               description = None, details = None, category = None,
               transaction_type = None, is_special = False\<rparr>
      | _ \<Rightarrow> Inl \<lparr>wtype = parsing_error, message = ''unparseable row'', wdetails = []\<rparr>)"

definition sample_registry :: "string \<Rightarrow> bank_parser option" where
  "sample_registry bank = (if bank = ''intesa'' then Some sample_parser else None)"

fun sample_rows :: "nat \<Rightarrow> string \<Rightarrow> RawRow list" where
  "sample_rows i [] = []"
| "sample_rows i (c # cs) =
     (if c = CHR ''g''
      then [(''Data'', DateCell (2024, 1, 5 + i)), (''Importo'', NumberCell (- 42))]
      else [(''Data'', TextCell ''yesterday''), (''Importo'', NumberCell (- 42))])
     # sample_rows (Suc i) cs"

definition sample_load :: "UploadedFile \<Rightarrow> RawRow list option" where
  "sample_load f = Some (sample_rows 0 (file_content f))"

definition sample_save :: "UploadedFile \<Rightarrow> string" where
  "sample_save f = ''20240110_'' @ file_name f"

definition january_file :: UploadedFile where
  "january_file = \<lparr>file_name = ''jan.xlsx'', file_content = ''gxg''\<rparr>"

definition unparseable_file :: UploadedFile where
  "unparseable_file = \<lparr>file_name = ''bad.xlsx'', file_content = ''x''\<rparr>"

section \<open>The upload API client\<close>

text \<open>
  \<^verbatim>\<open>api/client.ts\<close>: the three operations of \<^verbatim>\<open>uploadApi\<close> and the \<^verbatim>\<open>request\<close> helper.
  A request is what \<^verbatim>\<open>fetch\<close> is called with. A JSON body is the value that
  \<^verbatim>\<open>JSON.stringify\<close> serialises; a multipart body is the list of the fields appended to
  the \<^verbatim>\<open>FormData\<close>, in order.
\<close>

datatype json =
  JNull | JBool bool | JNumber real | JString string | JArray "json list"
  | JObject "(string \<times> json) list"

datatype form_value = FormFile UploadedFile | FormText string

datatype request_body = NoBody | FormData "(string \<times> form_value) list" | JsonText json

datatype http_method = GET | POST | PUT | DELETE

record RequestInit =
  init_method :: http_method
  init_headers :: "(string \<times> string) list"
  init_body :: request_body

record Request =
  url :: string
  http_method :: http_method
  headers :: "(string \<times> string) list"
  body :: request_body

definition API_BASE_URL :: string where
  "API_BASE_URL = ''/api''"

text \<open>
  \<^verbatim>\<open>{ 'Content-Type': 'application/json', ...options?.headers }\<close>: a key of the second
  object overrides the value of the first and keeps its position, a new key is appended.
\<close>

definition spread :: "(string \<times> string) list \<Rightarrow> (string \<times> string) list \<Rightarrow> (string \<times> string) list" where
  "spread base extra = fold (\<lambda>(k, v). AList.update k v) extra base"

text \<open>The call of \<^verbatim>\<open>fetch\<close> that \<^verbatim>\<open>request(endpoint, options)\<close> makes.\<close>

definition request :: "string \<Rightarrow> RequestInit \<Rightarrow> Request" where
  "request endpoint options =
     \<lparr>url = API_BASE_URL @ endpoint, http_method = init_method options,
      headers = spread [(''Content-Type'', ''application/json'')] (init_headers options),
      body = init_body options\<rparr>"

text \<open>The value that \<^verbatim>\<open>JSON.stringify\<close> serialises for a field of type \<^verbatim>\<open>string | null\<close>.\<close>

definition json_opt :: "string option \<Rightarrow> json" where
  "json_opt v = (case v of None \<Rightarrow> JNull | Some s \<Rightarrow> JString s)"

text \<open>A date travels as its ISO string.\<close>

definition json_date :: "date \<Rightarrow> json" where
  "json_date d = JString (iso_date d)"

definition to_json :: "ParsedTransaction \<Rightarrow> json" where
  "to_json t =
     JObject
       [(''bank_name'', JString (bank_name t)), (''account_name'', JString (account_name t)),
        (''date'', json_date (date t)), (''amount'', JNumber (amount t)),
        (''description'', json_opt (description t)), (''details'', json_opt (details t)),
        (''category'', json_opt (category t)),
        (''transaction_type'', json_opt (transaction_type t)),
        (''is_special'', JBool (is_special t))]"

text \<open>\<^verbatim>\<open>uploadApi.preprocess\<close>: a \<^verbatim>\<open>fetch\<close> of its own, with no headers set.\<close>

definition uploadApi_preprocess :: "UploadedFile \<Rightarrow> string \<Rightarrow> string \<Rightarrow> Request" where
  "uploadApi_preprocess file bankName accountName =
     \<lparr>url = API_BASE_URL @ ''/upload/preprocess'', http_method = POST, headers = [],
      body = FormData [(''file'', FormFile file), (''bank_name'', FormText bankName),
                       (''account_name'', FormText accountName)]\<rparr>"

definition uploadApi_harmonize :: "ParsedTransaction list \<Rightarrow> Request" where
  "uploadApi_harmonize txs =
     request ''/upload/harmonize''
       \<lparr>init_method = POST, init_headers = [], init_body = JsonText (JArray (map to_json txs))\<rparr>"

definition uploadApi_commit :: "ParsedTransaction list \<Rightarrow> Request" where
  "uploadApi_commit txs =
     request ''/upload/commit''
       \<lparr>init_method = POST, init_headers = [],
        init_body = JsonText (JObject [(''transactions'', JArray (map to_json txs))])\<rparr>"

text \<open>
  What comes back. For a response that is not ok, the error body is read with
  \<^verbatim>\<open>response.json()\<close>, replaced by \<^verbatim>\<open>{ detail: response.statusText }\<close> when the body is
  no JSON; \<^verbatim>\<open>error.detail\<close> is then read and \<^verbatim>\<open>ApiError(status, detail)\<close> is thrown. The
  read gives \<^verbatim>\<open>undefined\<close> (\<open>None\<close>) when the body is an object without that key or
  is a string, a number, a boolean or an array, and it raises a \<^verbatim>\<open>TypeError\<close> when the
  body is \<^verbatim>\<open>null\<close>; of a key given twice \<^verbatim>\<open>JSON.parse\<close> keeps the last value. For an ok
  response the JSON body is returned as it is (the result types \<^verbatim>\<open>PreprocessingResult\<close>,
  \<^verbatim>\<open>HarmonizationResult\<close> and \<^verbatim>\<open>CommitResult\<close> are declarations, nothing is validated);
  \<^verbatim>\<open>request\<close> returns the empty object when the content type is not JSON.
\<close>

record Response =
  ok :: bool
  status :: nat
  statusText :: string
  content_type_json :: bool
  response_json :: "json option"

datatype api_failure = ApiError nat "json option" | SyntaxError | Raised js_error

definition error_detail :: "Response \<Rightarrow> js_error + json option" where
  "error_detail r =
     (case response_json r of
        None \<Rightarrow> Inr (Some (JString (statusText r)))
      | Some JNull \<Rightarrow> Inl TypeError
      | Some (JObject kvs) \<Rightarrow> Inr (map_of (rev kvs) ''detail'')
      | Some _ \<Rightarrow> Inr None)"

definition throw_ApiError :: "Response \<Rightarrow> api_failure" where
  "throw_ApiError r =
     (case error_detail r of Inl e \<Rightarrow> Raised e | Inr detail \<Rightarrow> ApiError (status r) detail)"

definition request_result :: "Response \<Rightarrow> api_failure + json" where
  "request_result r =
     (if \<not> ok r then Inl (throw_ApiError r)
      else if content_type_json r
      then (case response_json r of None \<Rightarrow> Inl SyntaxError | Some j \<Rightarrow> Inr j)
      else Inr (JObject []))"

definition preprocess_result :: "Response \<Rightarrow> api_failure + json" where
  "preprocess_result r =
     (if \<not> ok r then Inl (throw_ApiError r)
      else (case response_json r of None \<Rightarrow> Inl SyntaxError | Some j \<Rightarrow> Inr j))"

section \<open>The upload flow\<close>

text \<open>
  The upload section of \<^verbatim>\<open>views/DataManagement.vue\<close>: the reactive state of the stepper
  and its handlers. An \<^verbatim>\<open>async\<close> handler is split where it awaits the API: its first part
  runs on the click and puts the call in flight; its second part runs when the response of
  that call arrives, which may be after other events.
\<close>

datatype api_call =
  PreprocessCall UploadedFile string string
  | HarmonizeCall "ParsedTransaction list"
  | CommitCall "ParsedTransaction list"
  | LastDatesCall

record upload_state =
  uploadForm_date :: string
  uploadForm_bankName :: string
  uploadForm_accountName :: string
  uploadForm_file :: "UploadedFile option"
  currentStep :: nat
  uploading :: bool
  uploadError :: "string option"
  preprocessingResult :: "PreprocessingResult option"
  harmonizing :: bool
  harmonizationResult :: "HarmonizationResult option"
  transactionsToCommit :: "ParsedTransaction list"
  committing :: bool
  commitError :: "string option"
  commitResult :: "CommitResult option"
  showDuplicates :: bool
  showNewTransactions :: bool
  inflight :: "api_call list"

text \<open>
  The state that the setup script builds when the component is created: every \<^verbatim>\<open>ref\<close> is
  initialised from a constant, and the date of the form from the clock. The component
  reads no \<^verbatim>\<open>localStorage\<close>, \<^verbatim>\<open>sessionStorage\<close> or route state and writes none, so
  this is also the state after a reload, whatever the state before.
\<close>

definition initial :: "string \<Rightarrow> upload_state" where
  "initial today =
     \<lparr>uploadForm_date = today, uploadForm_bankName = [], uploadForm_accountName = [],
      uploadForm_file = None, currentStep = 0, uploading = False, uploadError = None,
      preprocessingResult = None, harmonizing = False, harmonizationResult = None,
      transactionsToCommit = [], committing = False, commitError = None,
      commitResult = None, showDuplicates = False, showNewTransactions = True,
      inflight = []\<rparr>"

definition reload :: "string \<Rightarrow> upload_state \<Rightarrow> upload_state" where
  "reload today s = initial today"

definition canProceedToStep1 :: "upload_state \<Rightarrow> bool" where
  "canProceedToStep1 s =
     (uploadForm_bankName s \<noteq> [] \<and> uploadForm_accountName s \<noteq> [] \<and> uploadForm_date s \<noteq> [])"

definition goToStep :: "nat \<Rightarrow> upload_state \<Rightarrow> upload_state" where
  "goToStep step s = s\<lparr>currentStep := step\<rparr>"

definition onFileSelected :: "UploadedFile \<Rightarrow> upload_state \<Rightarrow> upload_state" where
  "onFileSelected f s = s\<lparr>uploadForm_file := Some f, uploadError := None\<rparr>"

definition resetUpload :: "upload_state \<Rightarrow> upload_state" where
  "resetUpload s =
     s\<lparr>currentStep := 0, uploadForm_file := None, uploadError := None,
       preprocessingResult := None, harmonizationResult := None,
       transactionsToCommit := [], commitError := None, commitResult := None\<rparr>"

text \<open>
  The info box of step 3 in the template. It reads \<^verbatim>\<open>date_range.first_date\<close> and
  \<^verbatim>\<open>date_range.last_date\<close> of the preprocessing result without a guard; on an absent
  \<^verbatim>\<open>date_range\<close> the read raises.
\<close>

definition info_box :: "PreprocessingResult \<Rightarrow> js_error + string list" where
  "info_box r =
     (case date_range r of
        None \<Rightarrow> Inl TypeError
      | Some dr \<Rightarrow>
          Inr [''File saved as: '' @ saved_filename r,
               ''Date range: '' @ iso_date (first_date dr) @ '' to '' @ iso_date (last_date dr),
               ''Transactions found: '' @ toString (length (transactions r))])"

text \<open>\<^verbatim>\<open>e.message || fallback\<close>\<close>

definition message_or :: "string \<Rightarrow> string \<Rightarrow> string" where
  "message_or msg fallback = (if msg = [] then fallback else msg)"

text \<open>\<^verbatim>\<open>preprocessFile\<close>: up to the call, on its result, and on its failure.\<close>

definition preprocessFile :: "upload_state \<Rightarrow> upload_state" where
  "preprocessFile s =
     (case uploadForm_file s of
        None \<Rightarrow> s
      | Some f \<Rightarrow>
          s\<lparr>uploading := True, uploadError := None,
            inflight := inflight s @
              [PreprocessCall f (uploadForm_bankName s) (uploadForm_accountName s)]\<rparr>)"

definition preprocessFile_resolved :: "PreprocessingResult \<Rightarrow> upload_state \<Rightarrow> upload_state" where
  "preprocessFile_resolved r s =
     s\<lparr>preprocessingResult := Some r, currentStep := 2, uploading := False\<rparr>"

definition preprocessFile_rejected :: "string \<Rightarrow> upload_state \<Rightarrow> upload_state" where
  "preprocessFile_rejected msg s =
     s\<lparr>uploadError := Some (message_or msg ''Failed to process file''), uploading := False\<rparr>"

text \<open>
  The watcher of \<^verbatim>\<open>harmonizationResult\<close>: it copies the new transactions (a copy of a
  record is the record) into \<^verbatim>\<open>transactionsToCommit\<close>; it runs before the next event
  whenever the reference was assigned a new value.
\<close>

definition watch_harmonizationResult :: "upload_state \<Rightarrow> upload_state" where
  "watch_harmonizationResult s =
     (case harmonizationResult s of
        None \<Rightarrow> s
      | Some result \<Rightarrow> s\<lparr>transactionsToCommit := map (\<lambda>t. t) (new_transactions result)\<rparr>)"

text \<open>\<^verbatim>\<open>harmonizeTransactions\<close>: up to the call, on its result, and on its failure.\<close>

definition harmonizeTransactions :: "upload_state \<Rightarrow> upload_state" where
  "harmonizeTransactions s =
     (case preprocessingResult s of
        None \<Rightarrow> s
      | Some r \<Rightarrow>
          s\<lparr>harmonizing := True, inflight := inflight s @ [HarmonizeCall (transactions r)]\<rparr>)"

definition harmonizeTransactions_resolved :: "HarmonizationResult \<Rightarrow> upload_state \<Rightarrow> upload_state" where
  "harmonizeTransactions_resolved h s =
     watch_harmonizationResult
       (s\<lparr>harmonizationResult := Some h, currentStep := 3, harmonizing := False\<rparr>)"

definition harmonizeTransactions_rejected :: "string \<Rightarrow> upload_state \<Rightarrow> upload_state" where
  "harmonizeTransactions_rejected msg s =
     s\<lparr>uploadError := Some (message_or msg ''Failed to harmonize transactions''),
       harmonizing := False\<rparr>"

definition toggleDuplicates :: "upload_state \<Rightarrow> upload_state" where
  "toggleDuplicates s = s\<lparr>showDuplicates := \<not> showDuplicates s\<rparr>"

definition toggleNewTransactions :: "upload_state \<Rightarrow> upload_state" where
  "toggleNewTransactions s = s\<lparr>showNewTransactions := \<not> showNewTransactions s\<rparr>"

text \<open>The checkbox \<^verbatim>\<open>v-model="t.is_special"\<close> of row \<open>idx\<close> in the final review.\<close>

definition toggleSpecial :: "nat \<Rightarrow> upload_state \<Rightarrow> upload_state" where
  "toggleSpecial idx s =
     s\<lparr>transactionsToCommit :=
         (transactionsToCommit s)
           [idx := (transactionsToCommit s ! idx)
                     \<lparr>is_special := \<not> is_special (transactionsToCommit s ! idx)\<rparr>]\<rparr>"

text \<open>
  \<^verbatim>\<open>commitTransactions\<close>: up to the call; on its result, where it awaits
  \<^verbatim>\<open>loadAccountsWithDates\<close> (which catches its own errors) before \<^verbatim>\<open>committing\<close> is
  cleared; and on its failure.
\<close>

definition commitTransactions :: "upload_state \<Rightarrow> upload_state" where
  "commitTransactions s =
     (if transactionsToCommit s = [] then s
      else s\<lparr>committing := True, commitError := None,
             inflight := inflight s @ [CommitCall (transactionsToCommit s)]\<rparr>)"

definition commitTransactions_resolved :: "CommitResult \<Rightarrow> upload_state \<Rightarrow> upload_state" where
  "commitTransactions_resolved r s =
     s\<lparr>commitResult := Some r, currentStep := 5, inflight := inflight s @ [LastDatesCall]\<rparr>"

definition commitTransactions_finally :: "upload_state \<Rightarrow> upload_state" where
  "commitTransactions_finally s = s\<lparr>committing := False\<rparr>"

definition commitTransactions_rejected :: "string \<Rightarrow> upload_state \<Rightarrow> upload_state" where
  "commitTransactions_rejected msg s =
     s\<lparr>commitError := Some (message_or msg ''Failed to save transactions''),
       committing := False\<rparr>"

text \<open>
  What can happen to the component: the user edits the setup form, picks a file or clicks
  a button that the template renders and enables at the current step, or the response of a
  call in flight arrives. \<open>Respond i r\<close> is the response \<open>r\<close> to the \<open>i\<close>-th call in flight.
  \<open>ClickBack\<close> is the button \<^verbatim>\<open>Back\<close> of step 1 and of step 4, \<open>ClickCancel\<close> the button
  \<^verbatim>\<open>Cancel\<close> of step 2 and of step 3.
\<close>

datatype response =
  PreprocessOk PreprocessingResult
  | HarmonizeOk HarmonizationResult
  | CommitOk CommitResult
  | LastDatesDone
  | Failed string

datatype event =
  EditForm string string string
  | ClickNext
  | SelectFile UploadedFile
  | ClickBack
  | ClickUpload
  | ClickCancel
  | ClickHarmonize
  | ToggleDuplicates
  | ToggleNewTransactions
  | ClickProceed
  | ToggleSpecial nat
  | ClickSave
  | ClickUploadAnother
  | Respond nat response

definition remove_nth :: "nat \<Rightarrow> 'a list \<Rightarrow> 'a list" where
  "remove_nth i xs = take i xs @ drop (Suc i) xs"

definition settle :: "nat \<Rightarrow> upload_state \<Rightarrow> upload_state" where
  "settle i s = s\<lparr>inflight := remove_nth i (inflight s)\<rparr>"

text \<open>The continuation of the handler that awaits call \<open>c\<close>, on response \<open>r\<close>.\<close>

fun continue :: "api_call \<Rightarrow> response \<Rightarrow> upload_state \<Rightarrow> upload_state option" where
  "continue (PreprocessCall f b a) (PreprocessOk r) s = Some (preprocessFile_resolved r s)"
| "continue (PreprocessCall f b a) (Failed msg) s = Some (preprocessFile_rejected msg s)"
| "continue (HarmonizeCall txs) (HarmonizeOk h) s = Some (harmonizeTransactions_resolved h s)"
| "continue (HarmonizeCall txs) (Failed msg) s = Some (harmonizeTransactions_rejected msg s)"
| "continue (CommitCall txs) (CommitOk r) s = Some (commitTransactions_resolved r s)"
| "continue (CommitCall txs) (Failed msg) s = Some (commitTransactions_rejected msg s)"
| "continue LastDatesCall LastDatesDone s = Some (commitTransactions_finally s)"
| "continue LastDatesCall (Failed msg) s = Some (commitTransactions_finally s)"
| "continue c r s = None"

text \<open>
  One event: \<open>None\<close> when the template does not offer it in this state (the panel of
  another step is shown, the button is disabled) or no such call is in flight.
\<close>

fun fire :: "upload_state \<Rightarrow> event \<Rightarrow> upload_state option" where
  "fire s (EditForm d b a) =
     (if currentStep s = 0
      then Some (s\<lparr>uploadForm_date := d, uploadForm_bankName := b, uploadForm_accountName := a\<rparr>)
      else None)"
| "fire s ClickNext =
     (if currentStep s = 0 \<and> canProceedToStep1 s then Some (goToStep 1 s) else None)"
| "fire s (SelectFile f) = (if currentStep s = 1 then Some (onFileSelected f s) else None)"
| "fire s ClickBack =
     (if currentStep s = 1 then Some (goToStep 0 s)
      else if currentStep s = 4 then Some (goToStep 3 s)
      else None)"
| "fire s ClickUpload =
     (if currentStep s = 1 \<and> uploadForm_file s \<noteq> None \<and> \<not> uploading s
      then Some (preprocessFile s) else None)"
| "fire s ClickCancel =
     (if currentStep s = 2 \<or> currentStep s = 3 then Some (resetUpload s) else None)"
| "fire s ClickHarmonize = (if currentStep s = 2 then Some (harmonizeTransactions s) else None)"
| "fire s ToggleDuplicates =
     (if currentStep s = 3 \<and> \<not> harmonizing s \<and> harmonizationResult s \<noteq> None
      then Some (toggleDuplicates s) else None)"
| "fire s ToggleNewTransactions =
     (if currentStep s = 3 \<and> \<not> harmonizing s \<and> harmonizationResult s \<noteq> None
      then Some (toggleNewTransactions s) else None)"
| "fire s ClickProceed =
     (case harmonizationResult s of
        None \<Rightarrow> None
      | Some h \<Rightarrow>
          if currentStep s = 3 \<and> new_transactions h \<noteq> [] then Some (goToStep 4 s) else None)"
| "fire s (ToggleSpecial idx) =
     (if currentStep s = 4 \<and> idx < length (transactionsToCommit s)
      then Some (toggleSpecial idx s) else None)"
| "fire s ClickSave =
     (if currentStep s = 4 \<and> \<not> committing s \<and> transactionsToCommit s \<noteq> []
      then Some (commitTransactions s) else None)"
| "fire s ClickUploadAnother = (if currentStep s = 5 then Some (resetUpload s) else None)"
| "fire s (Respond i r) =
     (if i < length (inflight s) then continue (inflight s ! i) r (settle i s) else None)"

fun run :: "upload_state \<Rightarrow> event list \<Rightarrow> upload_state option" where
  "run s [] = Some s"
| "run s (e # es) = (case fire s e of None \<Rightarrow> None | Some s' \<Rightarrow> run s' es)"

text \<open>Equal except possibly for the flag \<^verbatim>\<open>is_special\<close>.\<close>

definition same_but_special :: "ParsedTransaction \<Rightarrow> ParsedTransaction \<Rightarrow> bool" where
  "same_but_special a b = (a\<lparr>is_special := is_special b\<rparr> = b)"

text \<open>A run of the flow up to the final review, and the results that the backend returned.\<close>

definition jan_result :: PreprocessingResult where
  "jan_result =
     \<lparr>transactions = [groceries, rent], warnings = [],
      date_range = Some \<lparr>first_date = (2024, 1, 5), last_date = (2024, 1, 7)\<rparr>,
      saved_filename = ''20240110_jan.xlsx''\<rparr>"

definition jan_harmonized :: HarmonizationResult where
  "jan_harmonized = \<lparr>new_transactions = [rent], duplicate_transactions = [groceries]\<rparr>"

definition to_review :: "event list" where
  "to_review =
     [EditForm ''2024-01-10'' ''intesa'' ''main'', ClickNext, SelectFile january_file,
      ClickUpload, Respond 0 (PreprocessOk jan_result), ClickHarmonize,
      Respond 0 (HarmonizeOk jan_harmonized), ClickProceed, ToggleSpecial 0]"

text \<open>What of the flow's state the claims speak about.\<close>

definition transient :: "upload_state \<Rightarrow>
  nat \<times> PreprocessingResult option \<times> HarmonizationResult option \<times> ParsedTransaction list" where
  "transient s =
     (currentStep s, preprocessingResult s, harmonizationResult s, transactionsToCommit s)"

text \<open>The invariant of the flow, over the events so far and the state they lead to.\<close>

definition harmonized_in :: "event list \<Rightarrow> HarmonizationResult \<Rightarrow> bool" where
  "harmonized_in evs h = (\<exists>i. Respond i (HarmonizeOk h) \<in> set evs)"

definition nothing_downstream :: "upload_state \<Rightarrow> bool" where
  "nothing_downstream s =
     (preprocessingResult s = None \<and> harmonizationResult s = None \<and>
      transactionsToCommit s = [] \<and> commitResult s = None)"

definition from_harmonization :: "event list \<Rightarrow> ParsedTransaction list \<Rightarrow> bool" where
  "from_harmonization evs txs =
     (\<exists>h. harmonized_in evs h \<and> list_all2 same_but_special txs (new_transactions h))"

definition flow_inv :: "event list \<Rightarrow> upload_state \<Rightarrow> bool" where
  "flow_inv evs s =
     ((currentStep s \<le> 1 \<longrightarrow> nothing_downstream s) \<and>
      (transactionsToCommit s = [] \<or>
         (\<exists>h. harmonizationResult s = Some h \<and>
              list_all2 same_but_special (transactionsToCommit s) (new_transactions h))) \<and>
      (\<forall>h. harmonizationResult s = Some h \<longrightarrow> harmonized_in evs h) \<and>
      (\<forall>txs. CommitCall txs \<in> set (inflight s) \<longrightarrow> from_harmonization evs txs))"

section \<open>The dashboard\<close>

text \<open>
  \<^verbatim>\<open>views/Dashboard.vue\<close>: the client-side filters and the monthly computations behind
  the charts.
\<close>

record Filters =
  excludeSpecial :: bool
  bankNames :: "string list"
  accountNames :: "string list"
  startDate :: string
  endDate :: string
  minAmount :: "real option"
  maxAmount :: "real option"

record dashboard_state =
  allTransactions :: "Transaction list"
  filteredTransactions :: "Transaction list"
  cashAccounts :: "AccountRef list"
  filters :: Filters
  availableBanks :: "string list"
  availableAccounts :: "string list"

text \<open>The template string \<^verbatim>\<open>`${a.bank_name}|${a.account_name}`\<close>.\<close>

definition account_key :: "'a AccountRef_scheme \<Rightarrow> string" where
  "account_key a = bank_name a @ ''|'' @ account_name a"

text \<open>
  \<^verbatim>\<open>applyClientFilters\<close>. The set of keys is a list here and \<^verbatim>\<open>has\<close> is membership. The
  call of \<^verbatim>\<open>updateCharts\<close> at its end redraws the charts from the filtered list and
  changes no state of the model.
\<close>

definition applyClientFilters :: "dashboard_state \<Rightarrow> dashboard_state" where
  "applyClientFilters s =
     (let filtered = allTransactions s;
          cashAccountSet = map account_key (cashAccounts s);
          filtered = filter (\<lambda>t. account_key t \<in> set cashAccountSet) filtered;
          filtered =
            (if 0 < length (bankNames (filters s)) \<and>
                length (bankNames (filters s)) < length (availableBanks s)
             then filter (\<lambda>t. bank_name t \<in> set (bankNames (filters s))) filtered
             else filtered);
          filtered =
            (if 0 < length (accountNames (filters s)) \<and>
                length (accountNames (filters s)) < length (availableAccounts s)
             then filter (\<lambda>t. account_name t \<in> set (accountNames (filters s))) filtered
             else filtered);
          filtered =
            (if excludeSpecial (filters s) then filter (\<lambda>t. \<not> is_special t) filtered
             else filtered);
          filtered =
            (case minAmount (filters s) of
               None \<Rightarrow> filtered
             | Some lo \<Rightarrow> filter (\<lambda>t. amount t \<ge> lo) filtered);
          filtered =
            (case maxAmount (filters s) of
               None \<Rightarrow> filtered
             | Some hi \<Rightarrow> filter (\<lambda>t. amount t \<le> hi) filtered)
      in s\<lparr>filteredTransactions := filtered\<rparr>)"

text \<open>A transaction belongs to a cash account: one with its bank and its account name.\<close>

definition in_cash_account :: "AccountRef list \<Rightarrow> Transaction \<Rightarrow> bool" where
  "in_cash_account accounts t =
     list_ex (\<lambda>a. bank_name a = bank_name t \<and> account_name a = account_name t) accounts"

text \<open>What \<^verbatim>\<open>applyClientFilters\<close> keeps, as one predicate on a transaction.\<close>

definition passes :: "dashboard_state \<Rightarrow> Transaction \<Rightarrow> bool" where
  "passes s t =
     (account_key t \<in> set (map account_key (cashAccounts s)) \<and>
      (0 < length (bankNames (filters s)) \<and>
         length (bankNames (filters s)) < length (availableBanks s) \<longrightarrow>
         bank_name t \<in> set (bankNames (filters s))) \<and>
      (0 < length (accountNames (filters s)) \<and>
         length (accountNames (filters s)) < length (availableAccounts s) \<longrightarrow>
         account_name t \<in> set (accountNames (filters s))) \<and>
      (excludeSpecial (filters s) \<longrightarrow> \<not> is_special t) \<and>
      (case minAmount (filters s) of None \<Rightarrow> True | Some lo \<Rightarrow> lo \<le> amount t) \<and>
      (case maxAmount (filters s) of None \<Rightarrow> True | Some hi \<Rightarrow> amount t \<le> hi))"

text \<open>
  A bank whose name holds the separator: the cash account \<^verbatim>\<open>c\<close> of bank \<^verbatim>\<open>a|b\<close>, and a
  transaction of the account \<^verbatim>\<open>b|c\<close> of bank \<^verbatim>\<open>a\<close>, which is no cash account.
\<close>

definition piped_account :: AccountRef where
  "piped_account = \<lparr>bank_name = ''a|b'', account_name = ''c''\<rparr>"

definition piped_transaction :: Transaction where
  "piped_transaction =
     \<lparr>bank_name = ''a'', account_name = ''b|c'', date = (2024, 3, 1), amount = 10,
      description = None, details = None, category = None, transaction_type = None,
      is_special = False, tx_id = 7, created_at = ''2024-03-02T09:00:00'',
      updated_at = ''2024-03-02T09:00:00''\<rparr>"

definition piped_dashboard :: dashboard_state where
  "piped_dashboard =
     \<lparr>allTransactions = [piped_transaction], filteredTransactions = [],
      cashAccounts = [piped_account],
      filters = \<lparr>excludeSpecial = True, bankNames = [], accountNames = [], startDate = [],
                 endDate = [], minAmount = None, maxAmount = None\<rparr>,
      availableBanks = [], availableAccounts = []\<rparr>"

text \<open>
  \<^verbatim>\<open>groupByMonth\<close>. The date of a transaction stands for the ISO string that \<^verbatim>\<open>parseISO\<close>
  reads: a four-digit year and a month and day that \<^verbatim>\<open>validateDate\<close> accepts, and
  otherwise the result is the invalid date, \<open>None\<close> here. \<^verbatim>\<open>startOfMonth\<close> keeps an
  invalid date, and \<^verbatim>\<open>format\<close> raises a \<^verbatim>\<open>RangeError\<close> on it.
\<close>

definition parseISO :: "date \<Rightarrow> date option" where
  "parseISO d = (if year_of d \<le> 9999 \<and> validateDate d then Some d else None)"

definition startOfMonth :: "date option \<Rightarrow> date option" where
  "startOfMonth d = map_option (\<lambda>d. (year_of d, month_of d, 1)) d"

definition format :: "date option \<Rightarrow> js_error + string" where
  "format d = (case d of None \<Rightarrow> Inl RangeError | Some d \<Rightarrow> Inr (format_yyyy_MM d))"

definition monthKey :: "Transaction \<Rightarrow> js_error + string" where
  "monthKey transaction = format (startOfMonth (parseISO (date transaction)))"

text \<open>
  A \<^verbatim>\<open>Map\<close> keeps its keys in insertion order: it is the list of its entries, and
  \<open>group_push\<close> is \<^verbatim>\<open>get(key).push(value)\<close> after the entry was created if it was
  missing. \<open>forEach_group\<close> is the \<^verbatim>\<open>forEach\<close> loop, which an error leaves.
\<close>

fun group_push :: "string \<Rightarrow> Transaction \<Rightarrow> (string \<times> Transaction list) list \<Rightarrow>
  (string \<times> Transaction list) list" where
  "group_push k t [] = [(k, [t])]"
| "group_push k t ((k', ts) # g) =
     (if k' = k then (k', ts @ [t]) # g else (k', ts) # group_push k t g)"

fun forEach_group :: "Transaction list \<Rightarrow> (string \<times> Transaction list) list \<Rightarrow>
  js_error + (string \<times> Transaction list) list" where
  "forEach_group [] grouped = Inr grouped"
| "forEach_group (transaction # rest) grouped =
     (case monthKey transaction of
        Inl e \<Rightarrow> Inl e
      | Inr k \<Rightarrow> forEach_group rest (group_push k transaction grouped))"

definition groupByMonth :: "Transaction list \<Rightarrow> js_error + (string \<times> Transaction list) list" where
  "groupByMonth txs = forEach_group txs []"

text \<open>\<^verbatim>\<open>Array.from(grouped.keys()).sort().slice(0, -1)\<close>\<close>

definition months_of :: "(string \<times> Transaction list) list \<Rightarrow> string list" where
  "months_of grouped = butlast (sort (map fst grouped))"

text \<open>
  \<^verbatim>\<open>months.map(f)\<close> where \<^verbatim>\<open>f\<close> reads \<^verbatim>\<open>grouped.get(month)!\<close>: a missing entry would be
  \<^verbatim>\<open>undefined\<close> and the method call on it a \<^verbatim>\<open>TypeError\<close>.
\<close>

fun map_months :: "(string \<Rightarrow> Transaction list \<Rightarrow> 'r) \<Rightarrow> (string \<times> Transaction list) list \<Rightarrow>
  string list \<Rightarrow> js_error + 'r list" where
  "map_months f grouped [] = Inr []"
| "map_months f grouped (m # ms) =
     (case map_of grouped m of
        None \<Rightarrow> Inl TypeError
      | Some monthTransactions \<Rightarrow>
          (case map_months f grouped ms of
             Inl e \<Rightarrow> Inl e
           | Inr rows \<Rightarrow> Inr (f m monthTransactions # rows)))"

record MonthlyAggregate =
  month :: string
  income :: jsnumber
  expenses :: jsnumber
  balance :: jsnumber

text \<open>
  \<^verbatim>\<open>xs.reduce((sum, t) => sum + g(t), 0)\<close>: the additions are those of doubles, from the
  left.
\<close>

definition reduce_sum :: "(Transaction \<Rightarrow> real) \<Rightarrow> Transaction list \<Rightarrow> jsnumber" where
  "reduce_sum g xs = foldl (\<lambda>sum t. js_add sum (Finite (g t))) (Finite 0) xs"

definition monthly_row :: "string \<Rightarrow> Transaction list \<Rightarrow> MonthlyAggregate" where
  "monthly_row m monthTransactions =
     (let income = reduce_sum amount (filter (\<lambda>t. amount t > 0) monthTransactions);
          expenses = reduce_sum (\<lambda>t. \<bar>amount t\<bar>) (filter (\<lambda>t. amount t < 0) monthTransactions);
          balance = js_sub income expenses
      in \<lparr>month = m, income = income, expenses = js_neg expenses, balance = balance\<rparr>)"

definition calculateMonthlyAggregates :: "Transaction list \<Rightarrow> js_error + MonthlyAggregate list" where
  "calculateMonthlyAggregates txs =
     (case groupByMonth txs of
        Inl e \<Rightarrow> Inl e
      | Inr grouped \<Rightarrow> (let months = months_of grouped in map_months monthly_row grouped months))"

record CumulativePoint =
  cmonth :: string
  cumulative :: jsnumber

text \<open>
  \<^verbatim>\<open>calculateCumulative\<close>: the callback of \<^verbatim>\<open>map\<close> adds each month's total to the variable
  \<^verbatim>\<open>cumulative\<close>, which \<open>accumulate\<close> threads through the months.
\<close>

fun accumulate :: "jsnumber \<Rightarrow> (string \<times> jsnumber) list \<Rightarrow> CumulativePoint list" where
  "accumulate c [] = []"
| "accumulate c ((m, monthTotal) # rest) =
     \<lparr>cmonth = m, cumulative = js_add c monthTotal\<rparr> # accumulate (js_add c monthTotal) rest"

definition calculateCumulative :: "Transaction list \<Rightarrow> js_error + CumulativePoint list" where
  "calculateCumulative txs =
     (case groupByMonth txs of
        Inl e \<Rightarrow> Inl e
      | Inr grouped \<Rightarrow>
          (let months = months_of grouped
           in case map_months (\<lambda>m monthTransactions. (m, reduce_sum amount monthTransactions))
                     grouped months of
                Inl e \<Rightarrow> Inl e
              | Inr totals \<Rightarrow> Inr (accumulate (Finite 0) totals)))"

text \<open>
  The words of the claim about the months: the calendar month of a transaction and its
  label \<^verbatim>\<open>YYYY-MM\<close>, the most recent of the months present, the months reported on (the
  labels of the months present in ascending order, without the last), and the
  transactions of a month.
\<close>

definition calendar_month :: "Transaction \<Rightarrow> nat \<times> nat" where
  "calendar_month t = (year_of (date t), month_of (date t))"

definition month_label :: "Transaction \<Rightarrow> string" where
  "month_label t =
     addLeadingZeros (year_of (date t)) 4 @ ''-'' @ addLeadingZeros (month_of (date t)) 2"

definition most_recent_month :: "Transaction list \<Rightarrow> nat \<times> nat" where
  "most_recent_month txs = Max (set (map calendar_month txs))"

definition included_months :: "Transaction list \<Rightarrow> string list" where
  "included_months txs =
     butlast (sort (remdups (map month_label txs)))"

definition in_month :: "string \<Rightarrow> Transaction list \<Rightarrow> Transaction list" where
  "in_month m txs = filter (\<lambda>t. month_label t = m) txs"

text \<open>The entries of the \<^verbatim>\<open>Map\<close> once the loop has run through transactions with valid dates.\<close>

definition grouped_by_label :: "Transaction list \<Rightarrow> (string \<times> Transaction list) list" where
  "grouped_by_label txs = fold (\<lambda>t grouped. group_push (month_label t) t grouped) txs []"

text \<open>
  The words of the claim about the sums: the exact sums of the positive amounts and of the
  absolute values of the negative amounts; the same sums as the code can form them, added
  from the left in double arithmetic; and a condition under which no addition rounds:
  whole amounts whose absolute values add up to less than \<open>2 ^ 53\<close>.
\<close>

definition sum_positive :: "Transaction list \<Rightarrow> real" where
  "sum_positive txs = sum_list (map amount (filter (\<lambda>t. 0 < amount t) txs))"

definition sum_abs_negative :: "Transaction list \<Rightarrow> real" where
  "sum_abs_negative txs = sum_list (map (\<lambda>t. \<bar>amount t\<bar>) (filter (\<lambda>t. amount t < 0) txs))"

definition double_sum :: "real list \<Rightarrow> jsnumber" where
  "double_sum xs = foldl (\<lambda>s x. js_add s (Finite x)) (Finite 0) xs"

definition running_total :: "jsnumber list \<Rightarrow> jsnumber" where
  "running_total totals = foldl js_add (Finite 0) totals"

definition whole_amounts :: "Transaction list \<Rightarrow> bool" where
  "whole_amounts txs =
     (list_all (\<lambda>t. frac (amount t) = 0) txs \<and>
      sum_list (map (\<lambda>t. \<bar>amount t\<bar>) txs) < 2 ^ 53)"

text \<open>Sample transactions of three months for the dashboard.\<close>

definition tx :: "nat \<Rightarrow> date \<Rightarrow> real \<Rightarrow> Transaction" where
  "tx i d a =
     \<lparr>bank_name = ''intesa'', account_name = ''main'', date = d, amount = a,
      description = None, details = None, category = None, transaction_type = None,
      is_special = False, tx_id = i, created_at = [], updated_at = []\<rparr>"

definition quarter :: "Transaction list" where
  "quarter =
     [tx 1 (2024, 2, 10) 1500, tx 2 (2024, 1, 5) (- 42), tx 3 (2024, 3, 1) (- 10),
      tx 4 (2024, 1, 27) 2000, tx 5 (2024, 2, 11) (- 800)]"

text \<open>
  Amounts of 0.1 in January and of 0.2 and 0.3 in February, each the double nearest to
  the decimal, and a purchase in March.
\<close>

definition tenths :: "Transaction list" where
  "tenths =
     [tx 1 (2024, 1, 15) (3602879701896397 / 36028797018963968),
      tx 2 (2024, 2, 3) (3602879701896397 / 18014398509481984),
      tx 3 (2024, 2, 20) (5404319552844595 / 18014398509481984),
      tx 4 (2024, 3, 1) (- 10)]"

section \<open>Flexible number input\<close>

text \<open>
  \<^verbatim>\<open>parseFlexibleNumber\<close> of \<^verbatim>\<open>views/DataManagement.vue\<close> and the JavaScript built-ins it
  calls. A string is a list of characters with codes below 256. A regular expression
  literal is a value of the datatype \<open>regex\<close>, and \<^verbatim>\<open>/^r$/.test(s)\<close> asks whether the
  whole of \<open>s\<close> matches \<open>r\<close>; the matcher takes derivatives character by character.
\<close>

datatype regex =
  Nothing | Epsilon | Digit | Chr char | Alt regex regex | Seq regex regex | Star regex

definition is_digit :: "char \<Rightarrow> bool" where
  "is_digit c = (CHR ''0'' \<le> c \<and> c \<le> CHR ''9'')"

fun nullable :: "regex \<Rightarrow> bool" where
  "nullable Nothing = False"
| "nullable Epsilon = True"
| "nullable Digit = False"
| "nullable (Chr c) = False"
| "nullable (Alt r s) = (nullable r \<or> nullable s)"
| "nullable (Seq r s) = (nullable r \<and> nullable s)"
| "nullable (Star r) = True"

fun deriv :: "char \<Rightarrow> regex \<Rightarrow> regex" where
  "deriv x Nothing = Nothing"
| "deriv x Epsilon = Nothing"
| "deriv x Digit = (if is_digit x then Epsilon else Nothing)"
| "deriv x (Chr c) = (if x = c then Epsilon else Nothing)"
| "deriv x (Alt r s) = Alt (deriv x r) (deriv x s)"
| "deriv x (Seq r s) =
     (if nullable r then Alt (Seq (deriv x r) s) (deriv x s) else Seq (deriv x r) s)"
| "deriv x (Star r) = Seq (deriv x r) (Star r)"

fun test :: "regex \<Rightarrow> string \<Rightarrow> bool" where
  "test r [] = nullable r"
| "test r (x # xs) = test (deriv x r) xs"

text \<open>The quantifiers \<^verbatim>\<open>r{n}\<close>, \<^verbatim>\<open>r{m,n}\<close> and \<^verbatim>\<open>r+\<close>.\<close>

fun exactly :: "nat \<Rightarrow> regex \<Rightarrow> regex" where
  "exactly 0 r = Epsilon"
| "exactly (Suc n) r = Seq r (exactly n r)"

fun at_most :: "nat \<Rightarrow> regex \<Rightarrow> regex" where
  "at_most 0 r = Epsilon"
| "at_most (Suc n) r = Alt Epsilon (Seq r (at_most n r))"

definition between :: "nat \<Rightarrow> nat \<Rightarrow> regex \<Rightarrow> regex" where
  "between m n r = Seq (exactly m r) (at_most (n - m) r)"

definition one_or_more :: "regex \<Rightarrow> regex" where
  "one_or_more r = Seq r (Star r)"

text \<open>\<^verbatim>\<open>/^\d{1,3}(\.\d{3})*,\d+$/\<close> and \<^verbatim>\<open>/^\d+,\d+$/\<close>\<close>

definition european_pattern :: regex where
  "european_pattern =
     Seq (between 1 3 Digit)
       (Seq (Star (Seq (Chr (CHR ''.'')) (exactly 3 Digit)))
         (Seq (Chr (CHR '','')) (one_or_more Digit)))"

definition comma_pattern :: regex where
  "comma_pattern = Seq (one_or_more Digit) (Seq (Chr (CHR '','')) (one_or_more Digit))"

text \<open>
  White space and line terminators of JavaScript among the first 256 code points: tab,
  line feed, vertical tab, form feed, carriage return, space and no-break space.
\<close>

definition is_space :: "char \<Rightarrow> bool" where
  "is_space c = (of_char c \<in> {9, 10, 11, 12, 13, 32, 160 :: nat})"

definition trimStart :: "string \<Rightarrow> string" where
  "trimStart s = dropWhile is_space s"

definition trim :: "string \<Rightarrow> string" where
  "trim s = rev (dropWhile is_space (rev (dropWhile is_space s)))"

text \<open>\<^verbatim>\<open>s.replace(/\./g, '')\<close> and \<^verbatim>\<open>s.replace(',', '.')\<close>, which replaces the first comma.\<close>

definition remove_dots :: "string \<Rightarrow> string" where
  "remove_dots s = filter (\<lambda>c. c \<noteq> CHR ''.'') s"

fun comma_to_dot :: "string \<Rightarrow> string" where
  "comma_to_dot [] = []"
| "comma_to_dot (c # cs) = (if c = CHR '','' then CHR ''.'' # cs else c # comma_to_dot cs)"

definition digit_value :: "char \<Rightarrow> nat" where
  "digit_value c = of_char c - 48"

definition digits_value :: "string \<Rightarrow> nat" where
  "digits_value ds = foldl (\<lambda>n c. 10 * n + digit_value c) 0 ds"

text \<open>The number that a decimal literal with these integer and fraction digits denotes.\<close>

definition decimal_value :: "string \<Rightarrow> string \<Rightarrow> real" where
  "decimal_value ip fp = real (digits_value ip) + real (digits_value fp) / 10 ^ length fp"

text \<open>
  The exponent part of a decimal literal at the head of \<open>s\<close>: \<^verbatim>\<open>e\<close> or \<^verbatim>\<open>E\<close>, an optional
  sign and at least one digit; the factor is 1 when there is no exponent part.
\<close>

definition exponent_factor :: "string \<Rightarrow> real" where
  "exponent_factor s =
     (case s of
        [] \<Rightarrow> 1
      | e # r \<Rightarrow>
          if e = CHR ''e'' \<or> e = CHR ''E'' then
            (case r of
               [] \<Rightarrow> 1
             | g # r' \<Rightarrow>
                 if g = CHR ''-'' then
                   (if takeWhile is_digit r' = [] then 1
                    else 1 / 10 ^ digits_value (takeWhile is_digit r'))
                 else if g = CHR ''+'' then
                   (if takeWhile is_digit r' = [] then 1
                    else 10 ^ digits_value (takeWhile is_digit r'))
                 else
                   (if takeWhile is_digit r = [] then 1
                    else 10 ^ digits_value (takeWhile is_digit r)))
          else 1)"

text \<open>
  \<^verbatim>\<open>parseFloat\<close> on an unsigned literal: \<^verbatim>\<open>Infinity\<close>, or the longest prefix that is
  digits, an optional fraction and an optional exponent; \<^verbatim>\<open>NaN\<close> when there is no digit
  before or after the point. The result is the number that the literal denotes, rounded to
  a double: a long literal overflows to an infinity, a small one is rounded to a subnormal
  or to zero. (The engines round the exact value; the standard lets an implementation
  replace the digits after the twentieth significant one by zeros first.)
\<close>

definition parse_unsigned :: "real \<Rightarrow> string \<Rightarrow> jsnumber" where
  "parse_unsigned sign u =
     (if take 8 u = ''Infinity'' then (if sign < 0 then NegInfinity else PosInfinity)
      else
        (let ip = takeWhile is_digit u; r1 = dropWhile is_digit u;
             dotted = (r1 \<noteq> [] \<and> hd r1 = CHR ''.'');
             fp = (if dotted then takeWhile is_digit (tl r1) else []);
             r2 = (if dotted then dropWhile is_digit (tl r1) else r1)
         in if ip = [] \<and> fp = [] then NaN
            else to_double (sign * decimal_value ip fp * exponent_factor r2)))"

text \<open>\<^verbatim>\<open>parseFloat\<close>: leading white space is skipped, then an optional sign is read.\<close>

definition parseFloat :: "string \<Rightarrow> jsnumber" where
  "parseFloat s =
     (case trimStart s of
        [] \<Rightarrow> NaN
      | c # cs \<Rightarrow>
          if c = CHR ''-'' then parse_unsigned (- 1) cs
          else if c = CHR ''+'' then parse_unsigned 1 cs
          else parse_unsigned 1 (c # cs))"

text \<open>\<^verbatim>\<open>parseFlexibleNumber\<close>; \<open>None\<close> is \<^verbatim>\<open>null\<close>.\<close>

definition parseFlexibleNumber :: "string \<Rightarrow> jsnumber option" where
  "parseFlexibleNumber v =
     (if v = [] \<or> trim v = [] then None
      else
        (let trimmed = trim v
         in if test european_pattern trimmed
            then Some (parseFloat (comma_to_dot (remove_dots trimmed)))
            else if test comma_pattern trimmed
            then Some (parseFloat (comma_to_dot trimmed))
            else (let parsed = parseFloat trimmed
                  in if parsed = NaN then None else Some parsed)))"

text \<open>
  The words of the claim: a string of one to three digits, dot-separated groups of three
  digits, a comma and a decimal part; and a string of digits.
\<close>

definition all_digits :: "string \<Rightarrow> bool" where
  "all_digits ds = list_all is_digit ds"

definition european_string :: "string \<Rightarrow> string list \<Rightarrow> string \<Rightarrow> string" where
  "european_string ds groups fs = ds @ concat (map (\<lambda>g. CHR ''.'' # g) groups) @ CHR '','' # fs"

definition european_parts :: "string \<Rightarrow> string list \<Rightarrow> string \<Rightarrow> bool" where
  "european_parts ds groups fs =
     (all_digits ds \<and> 1 \<le> length ds \<and> length ds \<le> 3 \<and>
      list_all (\<lambda>g. all_digits g \<and> length g = 3) groups \<and>
      all_digits fs \<and> fs \<noteq> [])"

text \<open>The language of a regular expression, to reason about the matcher.\<close>

definition conc :: "string set \<Rightarrow> string set \<Rightarrow> string set" where
  "conc A B = {u @ v | u v. u \<in> A \<and> v \<in> B}"

inductive_set star :: "string set \<Rightarrow> string set" for A :: "string set" where
  star_empty: "[] \<in> star A"
| star_more: "u \<in> A \<Longrightarrow> v \<in> star A \<Longrightarrow> u @ v \<in> star A"

fun lang :: "regex \<Rightarrow> string set" where
  "lang Nothing = {}"
| "lang Epsilon = {[]}"
| "lang Digit = {[c] | c. is_digit c}"
| "lang (Chr c) = {[c]}"
| "lang (Alt r s) = lang r \<union> lang s"
| "lang (Seq r s) = conc (lang r) (lang s)"
| "lang (Star r) = star (lang r)"

section \<open>Properties of the data model\<close>

lemma toString_small: "n < 10 \<Longrightarrow> toString n = [digit_char n]"
  by (subst toString.simps) simp

lemma toString_large: "10 \<le> n \<Longrightarrow> toString n = toString (n div 10) @ [digit_char (n mod 10)]"
  by (subst toString.simps) simp

lemma digit_char_0: "CHR ''0'' = digit_char 0"
  by (simp add: digit_char_def char_of_def bit_0)

lemma replicate_2: "replicate 2 c = [c, c]"
  by (simp add: numeral_2_eq_2)

lemma replicate_3: "replicate 3 c = [c, c, c]"
  by (simp add: numeral_3_eq_3)

lemma addLeadingZeros_2:
  assumes "m < 100"
  shows "addLeadingZeros m 2 = [digit_char (m div 10), digit_char (m mod 10)]"
proof (cases "m < 10")
  case True
  then show ?thesis
    by (simp add: addLeadingZeros_def padStart_def toString_small digit_char_0)
next
  case False
  with assms have "m div 10 < 10" by simp
  with False show ?thesis
    by (simp add: addLeadingZeros_def padStart_def toString_large toString_small)
qed

lemma toString_3:
  assumes "100 \<le> n" and "n < 1000"
  shows "toString n = [digit_char (n div 100), digit_char (n div 10 mod 10), digit_char (n mod 10)]"
proof -
  from assms have a: "10 \<le> n" "10 \<le> n div 10" "n div 10 div 10 < 10" by simp_all
  have "n div 10 div 10 = n div 100" by (simp add: div_mult2_eq [symmetric])
  with a show ?thesis
    by (simp add: toString_large toString_small)
qed

lemma addLeadingZeros_4:
  assumes "y < 10000"
  shows "addLeadingZeros y 4 =
    [digit_char (y div 1000), digit_char (y div 100 mod 10), digit_char (y div 10 mod 10),
     digit_char (y mod 10)]"
proof -
  consider "y < 10" | "10 \<le> y" "y < 100" | "100 \<le> y" "y < 1000" | "1000 \<le> y"
    by linarith
  then show ?thesis
  proof cases
    case 1
    then show ?thesis
      by (simp add: addLeadingZeros_def padStart_def toString_small digit_char_0 replicate_3)
  next
    case 2
    then have "y div 10 < 10" by simp
    with 2 show ?thesis
      by (simp add: addLeadingZeros_def padStart_def toString_large toString_small digit_char_0
          replicate_2)
  next
    case 3
    then show ?thesis
      by (simp add: addLeadingZeros_def padStart_def toString_3 digit_char_0)
  next
    case 4
    with assms have a: "10 \<le> y" "100 \<le> y div 10" "y div 10 < 1000" by simp_all
    have e: "y div 10 div 100 = y div 1000" "y div 10 div 10 = y div 100"
      by (simp_all add: div_mult2_eq [symmetric])
    from a show ?thesis
      by (simp add: addLeadingZeros_def padStart_def toString_large [of y] toString_3 e)
  qed
qed

lemma digit_char_less: "a < 10 \<Longrightarrow> b < 10 \<Longrightarrow> (digit_char a < digit_char b) = (a < b)"
  by (simp add: digit_char_def less_char_def take_bit_nat_eq_self)

lemma digit_char_eq: "a < 10 \<Longrightarrow> b < 10 \<Longrightarrow> (digit_char a = digit_char b) = (a = b)"
  by (simp add: digit_char_def char_of_eq_iff take_bit_nat_eq_self)

lemma digits_4:
  fixes y :: nat
  shows "y = 1000 * (y div 1000) + 100 * (y div 100 mod 10) + 10 * (y div 10 mod 10) + y mod 10"
proof -
  define d0 d1 d2 q3 where "d0 = y mod 10" and "d1 = y div 10 mod 10"
    and "d2 = y div 100 mod 10" and "q3 = y div 1000"
  have e: "y div 10 div 10 = y div 100" "y div 100 div 10 = y div 1000"
    by (simp_all add: div_mult2_eq [symmetric])
  have a: "y = 10 * (y div 10) + d0"
    unfolding d0_def by (rule mult_div_mod_eq [symmetric])
  have b: "y div 10 = 10 * (y div 100) + d1"
    unfolding d1_def e(1) [symmetric] by (rule mult_div_mod_eq [symmetric])
  have c: "y div 100 = 10 * q3 + d2"
    unfolding d2_def q3_def e(2) [symmetric] by (rule mult_div_mod_eq [symmetric])
  have "y = 1000 * q3 + 100 * d2 + 10 * d1 + d0"
    by (subst a, subst b, subst c) (simp add: algebra_simps)
  then show ?thesis by (simp only: d0_def d1_def d2_def q3_def)
qed

lemma lex_1000:
  fixes q r q' r' :: nat
  assumes "r < 1000" "r' < 1000"
  shows "(1000 * q + r < 1000 * q' + r') = (q < q' \<or> q = q' \<and> r < r')"
  using assms by arith

lemma lex_100:
  fixes q r q' r' :: nat
  assumes "r < 100" "r' < 100"
  shows "(100 * q + r < 100 * q' + r') = (q < q' \<or> q = q' \<and> r < r')"
  using assms by arith

lemma lex_10:
  fixes q r q' r' :: nat
  assumes "r < 10" "r' < 10"
  shows "(10 * q + r < 10 * q' + r') = (q < q' \<or> q = q' \<and> r < r')"
  using assms by arith

lemma lex_4:
  fixes a b c d a' b' c' d' :: nat
  assumes "b < 10" "c < 10" "d < 10" "b' < 10" "c' < 10" "d' < 10"
  shows "(1000 * a + 100 * b + 10 * c + d < 1000 * a' + 100 * b' + 10 * c' + d')
    = (a < a' \<or> a = a' \<and> (b < b' \<or> b = b' \<and> (c < c' \<or> c = c' \<and> d < d')))"
proof -
  from assms have s: "10 * c + d < 100" "10 * c' + d' < 100"
    "100 * b + (10 * c + d) < 1000" "100 * b' + (10 * c' + d') < 1000"
    by simp_all
  have "(1000 * a + 100 * b + 10 * c + d < 1000 * a' + 100 * b' + 10 * c' + d')
      = (1000 * a + (100 * b + (10 * c + d)) < 1000 * a' + (100 * b' + (10 * c' + d')))"
    by (simp add: add.assoc)
  also have "\<dots> = (a < a' \<or> a = a' \<and> 100 * b + (10 * c + d) < 100 * b' + (10 * c' + d'))"
    by (rule lex_1000) (rule s)+
  also have "\<dots> = (a < a' \<or> a = a' \<and> (b < b' \<or> b = b' \<and> 10 * c + d < 10 * c' + d'))"
    by (simp only: lex_100 [OF s(1) s(2)])
  also have "\<dots> = (a < a' \<or> a = a' \<and> (b < b' \<or> b = b' \<and> (c < c' \<or> c = c' \<and> d < d')))"
    by (simp only: lex_10 [OF assms(3) assms(6)])
  finally show ?thesis .
qed

lemma lex_2:
  fixes c d c' d' :: nat
  assumes "d < 10" "d' < 10"
  shows "(10 * c + d \<le> 10 * c' + d') = (c < c' \<or> c = c' \<and> d \<le> d')"
  using assms by arith

lemma year_string_less:
  assumes "y < 10000" and "y' < 10000"
  shows "(addLeadingZeros y 4 < addLeadingZeros y' 4) = (y < y')"
proof -
  let ?a = "y div 1000" and ?b = "y div 100 mod 10" and ?c = "y div 10 mod 10" and ?d = "y mod 10"
  let ?a' = "y' div 1000" and ?b' = "y' div 100 mod 10" and ?c' = "y' div 10 mod 10"
    and ?d' = "y' mod 10"
  from assms have r: "?a < 10" "?a' < 10" by simp_all
  have "(addLeadingZeros y 4 < addLeadingZeros y' 4)
      = (?a < ?a' \<or> ?a = ?a' \<and> (?b < ?b' \<or> ?b = ?b' \<and> (?c < ?c' \<or> ?c = ?c' \<and> ?d < ?d')))"
    using r by (simp add: addLeadingZeros_4 assms digit_char_less digit_char_eq)
  also have "\<dots> = (1000 * ?a + 100 * ?b + 10 * ?c + ?d < 1000 * ?a' + 100 * ?b' + 10 * ?c' + ?d')"
    by (rule lex_4 [symmetric]) simp_all
  also have "\<dots> = (y < y')"
    using digits_4 [of y] digits_4 [of y'] by simp
  finally show ?thesis .
qed

lemma year_string_eq:
  assumes "y < 10000" and "y' < 10000"
  shows "(addLeadingZeros y 4 = addLeadingZeros y' 4) = (y = y')"
proof
  assume e: "addLeadingZeros y 4 = addLeadingZeros y' 4"
  then have "\<not> addLeadingZeros y 4 < addLeadingZeros y' 4"
    and "\<not> addLeadingZeros y' 4 < addLeadingZeros y 4"
    by simp_all
  then have "\<not> y < y'" and "\<not> y' < y"
    by (simp_all add: year_string_less assms)
  then show "y = y'" by simp
next
  assume "y = y'"
  then show "addLeadingZeros y 4 = addLeadingZeros y' 4" by simp
qed


lemma month_string_le:
  assumes "m < 100" and "m' < 100"
  shows "(addLeadingZeros m 2 \<le> addLeadingZeros m' 2) = (m \<le> m')"
proof -
  from assms have r: "m div 10 < 10" "m' div 10 < 10" by simp_all
  have "(addLeadingZeros m 2 \<le> addLeadingZeros m' 2)
      = (m div 10 < m' div 10 \<or> m div 10 = m' div 10 \<and> m mod 10 \<le> m' mod 10)"
    using r by (simp add: addLeadingZeros_2 assms digit_char_less digit_char_eq
        order_le_less [of "digit_char (m mod 10)"] order_le_less [of "m mod 10"])
  also have "\<dots> = (10 * (m div 10) + m mod 10 \<le> 10 * (m' div 10) + m' mod 10)"
    by (rule lex_2 [symmetric]) simp_all
  also have "\<dots> = (m \<le> m')" by simp
  finally show ?thesis .
qed

lemma length_year_string: "y < 10000 \<Longrightarrow> length (addLeadingZeros y 4) = 4"
  by (simp add: addLeadingZeros_4)

lemma digit_chars:
  "digit_char 0 = CHR ''0''" "digit_char 1 = CHR ''1''" "digit_char 2 = CHR ''2''"
  "digit_char 3 = CHR ''3''" "digit_char 4 = CHR ''4''" "digit_char 5 = CHR ''5''"
  "digit_char 6 = CHR ''6''" "digit_char 7 = CHR ''7''" "digit_char 8 = CHR ''8''"
  "digit_char 9 = CHR ''9''" "digit_char (Suc 0) = CHR ''1''"
  by code_simp+

lemma to_double_not_NaN: "to_double x \<noteq> NaN"
  by (simp add: to_double_def Let_def)

lemma binade_exists:
  fixes a :: real
  assumes "0 < a"
  shows "\<exists>k. 2 powi k \<le> a \<and> a < 2 powi (k + 1)"
proof -
  define k where "k = \<lfloor>log 2 a\<rfloor>"
  have e: "(2::real) powr real_of_int j = 2 powi j" for j
    by (simp add: powr_real_of_int')
  have "real_of_int k + 1 = real_of_int (k + 1)" by simp
  then have e1: "(2::real) powr (real_of_int k + 1) = 2 powi (k + 1)"
    by (simp only: e)
  from floor_log_eq_powr_iff [of a 2 k] assms
  have "(2::real) powr real_of_int k \<le> a \<and> a < 2 powr (real_of_int k + 1)"
    by (simp add: k_def)
  then show ?thesis by (auto simp only: e e1)
qed

lemma binade_up:
  assumes "2 ^ n \<le> a" and "a < 2 ^ Suc n"
  shows "binade a = int n"
  using assms
proof (induction n arbitrary: a)
  case 0
  then show ?case by (subst binade.simps) simp
next
  case (Suc n)
  have "(1::real) \<le> 2 ^ n" by simp
  moreover from Suc.prems(1) have "2 * 2 ^ n \<le> a" by simp
  ultimately have a2: "2 \<le> a" by linarith
  from Suc.prems have "2 ^ n \<le> a / 2" "a / 2 < 2 ^ Suc n" by simp_all
  then have "binade (a / 2) = int n" by (rule Suc.IH)
  with a2 show ?case by (subst binade.simps) simp
qed

lemma binade_down:
  assumes "1 / 2 ^ n \<le> a" and "a < 2 / 2 ^ n"
  shows "binade a = - int n"
  using assms
proof (induction n arbitrary: a)
  case 0
  then show ?case by (subst binade.simps) simp
next
  case (Suc n)
  have "(1::real) \<le> 2 ^ n" by simp
  then have "(2::real) / 2 ^ Suc n \<le> 1" by (simp add: field_simps)
  with Suc.prems(2) have a1: "a < 1" by linarith
  have a0: "0 < a" using Suc.prems(1) by (smt (verit) divide_pos_pos zero_less_power)
  from Suc.prems have "1 / 2 ^ n \<le> 2 * a" "2 * a < 2 / 2 ^ n" by (simp_all add: field_simps)
  then have "binade (2 * a) = - int n" by (rule Suc.IH)
  with a1 a0 show ?case by (subst binade.simps) simp
qed

lemma binade_eq:
  assumes "2 powi k \<le> a" and "a < 2 powi (k + 1)"
  shows "binade a = k"
proof (cases "0 \<le> k")
  case True
  then obtain n where k: "k = int n" by (metis nonneg_int_cases)
  have "(2::real) powi (int n + 1) = 2 ^ Suc n"
    by (metis of_nat_Suc power_int_of_nat add.commute)
  with assms show ?thesis unfolding k by (intro binade_up) simp_all
next
  case False
  then obtain n where k: "k = - int n" by (metis int_cases2 nle_le of_nat_0_le_iff)
  have a: "(2::real) powi (- int n) = 1 / 2 ^ n"
    by (simp add: power_int_minus field_simps)
  have "(2::real) powi (- int n + 1) = 2 powi (- int n) * 2"
    by (rule power_int_add_1) simp
  then have b: "(2::real) powi (- int n + 1) = 2 / 2 ^ n"
    by (simp add: a)
  from assms show ?thesis unfolding k a b by (rule binade_down)
qed

text \<open>The rounding of a number whose binary exponent is \<open>k\<close>.\<close>

lemma to_double_at:
  assumes "2 powi k \<le> \<bar>x\<bar>" and "\<bar>x\<bar> < 2 powi (k + 1)"
  shows "to_double x =
     (let e = max k (- 1022) - 52;
          y = of_int (round_half_even (\<bar>x\<bar> / 2 powi e)) * 2 powi e
      in if 2 ^ 1024 \<le> y then (if x < 0 then NegInfinity else PosInfinity)
         else Finite (sgn x * y))"
proof -
  have "x \<noteq> 0" using assms(1) by (smt (verit) zero_less_power_int abs_zero)
  then show ?thesis
    by (simp add: to_double_def binade_eq [OF assms])
qed

lemma round_half_even_int: "round_half_even (of_int n) = n"
  by (simp add: round_half_even_def)

text \<open>A whole number below \<open>2 ^ 53\<close> in magnitude is a double: rounding leaves it.\<close>

lemma to_double_whole:
  assumes "x \<in> \<int>" and "\<bar>x\<bar> < 2 ^ 53"
  shows "to_double x = Finite x"
proof (cases "x = 0")
  case True
  then show ?thesis by (simp add: to_double_def)
next
  case False
  from assms(1) obtain n where n: "x = of_int n" by (auto elim: Ints_cases)
  with False have "n \<noteq> 0" by auto
  then have a1: "1 \<le> \<bar>x\<bar>" using n by (simp flip: of_int_abs)
  then have "0 < \<bar>x\<bar>" by simp
  from binade_exists [OF this]
  obtain k where k: "2 powi k \<le> \<bar>x\<bar>" "\<bar>x\<bar> < 2 powi (k + 1)"
    by blast
  have k0: "0 \<le> k"
  proof (rule ccontr)
    assume "\<not> 0 \<le> k"
    then have "k + 1 \<le> 0" by simp
    then have "(2::real) powi (k + 1) \<le> 2 powi 0" by (intro power_int_increasing) simp_all
    with k(2) a1 show False by simp
  qed
  have k52: "k \<le> 52"
  proof (rule ccontr)
    assume "\<not> k \<le> 52"
    then have "53 \<le> k" by simp
    then have "(2::real) powi 53 \<le> 2 powi k" by (intro power_int_increasing) simp_all
    with k(1) assms(2) show False by simp
  qed
  define j where "j = nat (52 - k)"
  have p: "(2::real) powi (k - 52) = 1 / 2 ^ j"
    using k52 by (simp add: power_int_def j_def field_simps)
  have q: "\<bar>x\<bar> / 2 powi (k - 52) = of_int (\<bar>n\<bar> * 2 ^ j)"
    by (simp add: p n)
  have r: "round_half_even (\<bar>x\<bar> / 2 powi (k - 52)) = \<bar>n\<bar> * 2 ^ j"
    unfolding q by (rule round_half_even_int)
  have m: "max k (- 1022) - 52 = k - 52" using k0 by simp
  have y: "real_of_int (\<bar>n\<bar> * 2 ^ j) * 2 powi (k - 52) = \<bar>x\<bar>"
    by (simp add: p n)
  have "(2::real) ^ 53 \<le> 2 ^ 1024" by (intro power_increasing) simp_all
  with assms(2) have big: "\<not> (2::real) ^ 1024 \<le> \<bar>x\<bar>" by linarith
  have s: "sgn x * \<bar>x\<bar> = x" by (simp add: sgn_mult_abs)
  show ?thesis
    unfolding to_double_at [OF k] Let_def m r y using big s by simp
qed

text \<open>A number of magnitude \<open>2 ^ 1024\<close> or more is rounded to an infinity.\<close>

lemma to_double_overflow:
  assumes "2 ^ 1024 \<le> \<bar>x\<bar>"
  shows "to_double x = (if x < 0 then NegInfinity else PosInfinity)"
proof -
  have pos: "0 < \<bar>x\<bar>" using assms by (smt (verit) zero_less_power)
  from binade_exists [OF this]
  obtain k where k: "2 powi k \<le> \<bar>x\<bar>" "\<bar>x\<bar> < 2 powi (k + 1)"
    by blast
  have k1: "1024 \<le> k"
  proof (rule ccontr)
    assume "\<not> 1024 \<le> k"
    then have "k + 1 \<le> 1024" by simp
    then have "(2::real) powi (k + 1) \<le> 2 powi 1024" by (intro power_int_increasing) simp_all
    with k(2) assms show False by simp
  qed
  define e where "e = k - 52"
  have m: "max k (- 1022) - 52 = e" using k1 by (simp add: e_def)
  have ep: "(0::real) < 2 powi e" by simp
  have split: "(2::real) powi k = 2 ^ 52 * 2 powi e"
  proof -
    have "(2::real) powi k = 2 powi (52 + e)" by (simp add: e_def)
    also have "\<dots> = 2 powi 52 * 2 powi e" by (rule power_int_add) simp
    finally show ?thesis by simp
  qed
  then have "2 ^ 52 * 2 powi e \<le> \<bar>x\<bar>" using k(1) by simp
  then have q: "2 ^ 52 \<le> \<bar>x\<bar> / 2 powi e"
    using ep by (simp add: field_simps)
  have "(2::int) ^ 52 \<le> \<lfloor>\<bar>x\<bar> / 2 powi e\<rfloor>"
    using q by (simp add: le_floor_iff)
  moreover have "\<lfloor>q'\<rfloor> \<le> round_half_even q'" for q'
    by (simp add: round_half_even_def Let_def)
  ultimately have r: "(2::int) ^ 52 \<le> round_half_even (\<bar>x\<bar> / 2 powi e)"
    by (rule order_trans)
  then have "(2::real) ^ 52 \<le> of_int (round_half_even (\<bar>x\<bar> / 2 powi e))"
    by (metis of_int_le_iff of_int_numeral of_int_power)
  then have "(2::real) ^ 52 * 2 powi e
      \<le> of_int (round_half_even (\<bar>x\<bar> / 2 powi e)) * 2 powi e"
    using ep by (intro mult_right_mono) simp_all
  moreover have "(2::real) ^ 1024 \<le> 2 ^ 52 * 2 powi e"
  proof -
    have "(2::real) powi 1024 \<le> 2 powi k" using k1 by (intro power_int_increasing) simp_all
    also have "\<dots> = 2 ^ 52 * 2 powi e" by (rule split)
    finally show ?thesis by simp
  qed
  ultimately have "(2::real) ^ 1024 \<le> of_int (round_half_even (\<bar>x\<bar> / 2 powi e)) * 2 powi e"
    by (rule order_trans [rotated])
  then show ?thesis
    unfolding to_double_at [OF k] Let_def m by simp
qed

text \<open>Additions of whole numbers that stay below \<open>2 ^ 53\<close> do not round.\<close>

lemma js_add_whole:
  assumes "x \<in> \<int>" and "y \<in> \<int>" and "\<bar>x + y\<bar> < 2 ^ 53"
  shows "js_add (Finite x) (Finite y) = Finite (x + y)"
  using assms by (simp add: to_double_whole)

lemma foldl_js_add_whole:
  assumes "list_all (\<lambda>x. x \<in> \<int>) xs" and "a \<in> \<int>"
    and "\<bar>a\<bar> + sum_list (map abs xs) < 2 ^ 53"
  shows "foldl (\<lambda>s x. js_add s (Finite x)) (Finite a) xs = Finite (a + sum_list xs)"
  using assms
proof (induction xs arbitrary: a)
  case Nil
  then show ?case by simp
next
  case (Cons x xs)
  have nn: "0 \<le> sum_list (map abs xs)" by (rule sum_list_nonneg) auto
  from Cons.prems have x: "x \<in> \<int>" and xs: "list_all (\<lambda>x. x \<in> \<int>) xs" by simp_all
  from Cons.prems(3) nn have b: "\<bar>a + x\<bar> < 2 ^ 53" by simp
  from Cons.prems(3) have c: "\<bar>a + x\<bar> + sum_list (map abs xs) < 2 ^ 53" by simp
  have "js_add (Finite a) (Finite x) = Finite (a + x)"
    using Cons.prems(2) x b by (rule js_add_whole)
  moreover have "foldl (\<lambda>s x. js_add s (Finite x)) (Finite (a + x)) xs
      = Finite (a + x + sum_list xs)"
    using xs Cons.prems(2) x c by (intro Cons.IH) simp_all
  ultimately show ?case by (simp add: add.assoc)
qed

text \<open>The doubles nearest to some decimals.\<close>

lemma nearest_doubles:
  "to_double (1 / 10) = Finite (3602879701896397 / 36028797018963968)"
  "to_double (2 / 10) = Finite (3602879701896397 / 18014398509481984)"
  "to_double (3 / 10) = Finite (5404319552844595 / 18014398509481984)"
  "to_double (6 / 10) = Finite (5404319552844595 / 9007199254740992)"
  "to_double (2001 / 2) = Finite (2001 / 2)"
proof -
  show "to_double (1 / 10) = Finite (3602879701896397 / 36028797018963968)"
    by (subst to_double_at [where k = "- 4"]) (simp_all add: round_half_even_def Let_def)
  show "to_double (2 / 10) = Finite (3602879701896397 / 18014398509481984)"
    by (subst to_double_at [where k = "- 3"]) (simp_all add: round_half_even_def Let_def)
  show "to_double (3 / 10) = Finite (5404319552844595 / 18014398509481984)"
    by (subst to_double_at [where k = "- 2"]) (simp_all add: round_half_even_def Let_def)
  show "to_double (6 / 10) = Finite (5404319552844595 / 9007199254740992)"
    by (subst to_double_at [where k = "- 1"]) (simp_all add: round_half_even_def Let_def)
  show "to_double (2001 / 2) = Finite (2001 / 2)"
    by (subst to_double_at [where k = 9]) (simp_all add: round_half_even_def Let_def)
qed

section \<open>Properties of the Harmonizer\<close>

lemma harmonize_loop_filter:
  "harmonize_loop db cs = (filter (\<lambda>c. \<not> is_duplicate db c) cs, filter (is_duplicate db) cs)"
  by (induction cs) simp_all

lemma new_transactions_harmonize:
  "new_transactions (harmonize db cs) = filter (\<lambda>c. \<not> is_duplicate db c) cs"
  by (simp add: harmonize_def harmonize_loop_filter)

lemma duplicate_transactions_harmonize:
  "duplicate_transactions (harmonize db cs) = filter (is_duplicate db) cs"
  by (simp add: harmonize_def harmonize_loop_filter)

lemma is_duplicate_iff: "is_duplicate db c = stored_match db c"
  by (auto simp: is_duplicate_def stored_match_def findTransactions_def same_triple_def
      list_ex_iff)

text \<open>
  Claim C1. A candidate passed to harmonize is placed in \<open>duplicate_transactions\<close> if and
  only if a stored transaction of the same bank and account has exactly the candidate's
  date, amount and description; otherwise it is placed in \<open>new_transactions\<close>. In the
  scenario of section 8 the freshly parsed grocery purchase is classified as a duplicate
  and not as new.
\<close>

theorem harmonize_duplicate_iff:
  "(c \<in> set (duplicate_transactions (harmonize db cs)) = (c \<in> set cs \<and> stored_match db c)) \<and>
   (c \<in> set (new_transactions (harmonize db cs)) = (c \<in> set cs \<and> \<not> stored_match db c)) \<and>
   duplicate_transactions (harmonize [stored_groceries] [groceries, rent]) = [groceries] \<and>
   new_transactions (harmonize [stored_groceries] [groceries, rent]) = [rent]"
proof -
  have dup: "c \<in> set (duplicate_transactions (harmonize db cs)) = (c \<in> set cs \<and> stored_match db c)"
    by (auto simp: duplicate_transactions_harmonize is_duplicate_iff)
  have new: "c \<in> set (new_transactions (harmonize db cs)) = (c \<in> set cs \<and> \<not> stored_match db c)"
    by (auto simp: new_transactions_harmonize is_duplicate_iff)
  have g: "is_duplicate [stored_groceries] groceries"
    by (simp add: is_duplicate_def findTransactions_def same_triple_def groceries_def
        stored_groceries_def)
  have r: "\<not> is_duplicate [stored_groceries] rent"
    by (simp add: is_duplicate_def findTransactions_def same_triple_def rent_def
        stored_groceries_def)
  have d: "duplicate_transactions (harmonize [stored_groceries] [groceries, rent]) = [groceries]"
    by (simp add: duplicate_transactions_harmonize g r)
  have n: "new_transactions (harmonize [stored_groceries] [groceries, rent]) = [rent]"
    by (simp add: new_transactions_harmonize g r)
  from dup new d n show ?thesis by blast
qed

text \<open>
  Claim C4. harmonize is a function of the store and the candidate list, and it partitions
  the list: the two output lists together hold every candidate exactly as often as the
  input does, no candidate is in both, each input position goes to exactly one list, and
  each output list is the input list with some elements removed, so the relative order of
  the input is kept.
\<close>

theorem harmonize_partition:
  "mset (new_transactions (harmonize db cs)) + mset (duplicate_transactions (harmonize db cs))
     = mset cs \<and>
   set (new_transactions (harmonize db cs)) \<inter> set (duplicate_transactions (harmonize db cs)) = {} \<and>
   length (new_transactions (harmonize db cs)) + length (duplicate_transactions (harmonize db cs))
     = length cs \<and>
   subseq (new_transactions (harmonize db cs)) cs \<and>
   subseq (duplicate_transactions (harmonize db cs)) cs"
proof -
  let ?n = "new_transactions (harmonize db cs)" and ?d = "duplicate_transactions (harmonize db cs)"
  have m: "mset ?n + mset ?d = mset cs"
    by (simp add: new_transactions_harmonize duplicate_transactions_harmonize add.commute)
  have i: "set ?n \<inter> set ?d = {}"
    by (auto simp: new_transactions_harmonize duplicate_transactions_harmonize)
  have l: "length ?n + length ?d = length cs"
    using m by (metis size_mset size_union)
  have s1: "subseq ?n cs"
    by (simp add: new_transactions_harmonize)
  have s2: "subseq ?d cs"
    by (simp add: duplicate_transactions_harmonize)
  from m i l s1 s2 show ?thesis by blast
qed

section \<open>Properties of the Commit Stage\<close>







section \<open>Properties of the Preprocessing Orchestrator\<close>

lemma parse_rows_length:
  "parse_rows p ctx i rows = (txs, ws) \<Longrightarrow> length txs + length ws = length rows"
proof (induction rows arbitrary: i txs ws)
  case Nil
  then show ?case by simp
next
  case (Cons r rs)
  obtain t1 w1 where rest: "parse_rows p ctx (Suc i) rs = (t1, w1)"
    by (cases "parse_rows p ctx (Suc i) rs") auto
  from Cons.IH [OF rest] have ih: "length t1 + length w1 = length rs" .
  from Cons.prems rest ih show ?case
    by (cases "p ctx i r") auto
qed

lemma date_range_of_Nil: "date_range_of [] = None"
  by (simp add: date_range_of_def)

lemma date_range_of_nonempty:
  "txs \<noteq> [] \<Longrightarrow> date_range_of txs =
     Some \<lparr>first_date = Min (set (map date txs)), last_date = Max (set (map date txs))\<rparr>"
  by (cases txs) (simp_all add: date_range_of_def Min.set_eq_fold[symmetric] Max.set_eq_fold[symmetric])

text \<open>
  Claim C2 (as amended). When a parser is registered for the bank and the file loads,
  preprocess returns a result and does not fail. Every row yields either a transaction or
  a warning. When at least one transaction was parsed, \<open>date_range\<close> holds the least and
  the greatest of the parsed dates; when none was parsed, \<open>transactions\<close> is empty and
  \<open>date_range\<close> is absent. For an input file with no rows, \<open>warnings\<close> is empty too.
\<close>

theorem preprocess_date_range:
  assumes "registry bank = Some p" and "load_table file = Some rows"
  shows "\<exists>r. preprocess registry load_table save_as file bank account = Inr r \<and>
     length (transactions r) + length (warnings r) = length rows \<and>
     (transactions r \<noteq> [] \<longrightarrow> date_range r =
        Some \<lparr>first_date = Min (set (map date (transactions r))),
              last_date = Max (set (map date (transactions r)))\<rparr>) \<and>
     (transactions r = [] \<longrightarrow> date_range r = None) \<and>
     (rows = [] \<longrightarrow> transactions r = [] \<and> warnings r = [] \<and> date_range r = None)"
proof -
  let ?ctx = "\<lparr>bank_name = bank, account_name = account\<rparr>"
  obtain txs ws where pr: "parse_rows p ?ctx 0 rows = (txs, ws)"
    by (cases "parse_rows p ?ctx 0 rows") auto
  let ?r = "\<lparr>transactions = txs, warnings = ws, date_range = date_range_of txs,
            saved_filename = save_as file\<rparr>"
  have res: "preprocess registry load_table save_as file bank account = Inr ?r"
    using assms pr by (simp add: preprocess_def)
  have len: "length txs + length ws = length rows"
    by (rule parse_rows_length [OF pr])
  have ne: "txs \<noteq> [] \<longrightarrow> date_range_of txs =
      Some \<lparr>first_date = Min (set (map date txs)), last_date = Max (set (map date txs))\<rparr>"
    using date_range_of_nonempty by blast
  have em: "txs = [] \<longrightarrow> date_range_of txs = None"
    by (simp add: date_range_of_Nil)
  have nil: "rows = [] \<longrightarrow> txs = [] \<and> ws = [] \<and> date_range_of txs = None"
    using pr by (auto simp: date_range_of_Nil)
  from res len ne em nil show ?thesis by simp
qed


theorem preprocess_date_range_witness:
  "sample_registry ''intesa'' = Some sample_parser \<and>
   sample_load january_file = Some (sample_rows 0 ''gxg'') \<and>
   (\<exists>r. preprocess sample_registry sample_load sample_save january_file ''intesa'' ''main'' = Inr r \<and>
        length (transactions r) + length (warnings r) = 3 \<and>
        transactions r \<noteq> [] \<and>
        date_range r = Some \<lparr>first_date = (2024, 1, 5), last_date = (2024, 1, 7)\<rparr>)"
proof -
  have h1: "sample_registry ''intesa'' = Some sample_parser"
    by (simp add: sample_registry_def)
  have h2: "sample_load january_file = Some (sample_rows 0 ''gxg'')"
    by (simp add: sample_load_def january_file_def)
  from preprocess_date_range [of sample_registry "''intesa''" sample_parser sample_load
      january_file "sample_rows 0 ''gxg''" sample_save "''main''", OF h1 h2]
  obtain r where r: "preprocess sample_registry sample_load sample_save january_file ''intesa'' ''main'' = Inr r"
    and len: "length (transactions r) + length (warnings r) = length (sample_rows 0 ''gxg'')"
    and dr: "transactions r \<noteq> [] \<longrightarrow> date_range r =
        Some \<lparr>first_date = Min (set (map date (transactions r))),
              last_date = Max (set (map date (transactions r)))\<rparr>"
    by blast
  have ds: "map date (transactions r) = [(2024, 1, 5), (2024, 1, 7)]"
    using r by (auto simp: preprocess_def sample_registry_def sample_load_def january_file_def
        sample_parser_def)
  then have ne: "transactions r \<noteq> []" by auto
  have "date_range r = Some \<lparr>first_date = (2024, 1, 5), last_date = (2024, 1, 7)\<rparr>"
    using dr ne by (simp add: ds)
  with h1 h2 r len ne show ?thesis by simp
qed

text \<open>
  Claim C2 as stated also promises empty \<open>warnings\<close> whenever zero transactions parse.
  A file whose only row has an unparseable date parses to zero transactions and one
  warning.
\<close>

theorem preprocess_zero_parsed_counterexample:
  "preprocess sample_registry sample_load sample_save unparseable_file ''intesa'' ''main''
     = Inr \<lparr>transactions = [],
            warnings = [\<lparr>wtype = parsing_error, message = ''unparseable row'', wdetails = []\<rparr>],
            date_range = None, saved_filename = ''20240110_bad.xlsx''\<rparr> \<and>
   [\<lparr>wtype = parsing_error, message = ''unparseable row'', wdetails = []\<rparr>] \<noteq> []"
  by (simp add: preprocess_def sample_registry_def sample_load_def sample_save_def
      unparseable_file_def sample_parser_def date_range_of_def)

section \<open>Properties of the upload API client\<close>

lemma iso_date_samples:
  "iso_date (2024, 1, 5) = ''2024-01-05''" "iso_date (2024, 1, 7) = ''2024-01-07''"
  "iso_date (2024, Suc 0, 5) = ''2024-01-05''" "iso_date (2024, Suc 0, 7) = ''2024-01-07''"
  by (simp_all add: iso_date_def addLeadingZeros_4 addLeadingZeros_2 year_of_def month_of_def
      day_of_def digit_chars)

text \<open>
  The failures of a response that is not ok: the \<^verbatim>\<open>detail\<close> of the error body, the
  status text when the body is no JSON, no detail when the body has none, and a
  \<^verbatim>\<open>TypeError\<close> in place of the \<^verbatim>\<open>ApiError\<close> when the body is \<^verbatim>\<open>null\<close>.
\<close>

lemma request_result_failures:
  "request_result \<lparr>ok = False, status = st, statusText = reason, content_type_json = ct,
     response_json = Some (JObject [(''detail'', d)])\<rparr> = Inl (ApiError st (Some d))"
  "request_result \<lparr>ok = False, status = st, statusText = reason, content_type_json = ct,
     response_json = None\<rparr> = Inl (ApiError st (Some (JString reason)))"
  "request_result \<lparr>ok = False, status = st, statusText = reason, content_type_json = ct,
     response_json = Some (JObject [])\<rparr> = Inl (ApiError st None)"
  "request_result \<lparr>ok = False, status = st, statusText = reason, content_type_json = ct,
     response_json = Some JNull\<rparr> = Inl (Raised TypeError)"
  by (simp_all add: request_result_def throw_ApiError_def error_detail_def)

lemma preprocess_result_failures:
  "preprocess_result \<lparr>ok = False, status = st, statusText = reason, content_type_json = ct,
     response_json = Some (JObject [(''detail'', d)])\<rparr> = Inl (ApiError st (Some d))"
  "preprocess_result \<lparr>ok = False, status = st, statusText = reason, content_type_json = ct,
     response_json = None\<rparr> = Inl (ApiError st (Some (JString reason)))"
  "preprocess_result \<lparr>ok = False, status = st, statusText = reason, content_type_json = ct,
     response_json = Some JNull\<rparr> = Inl (Raised TypeError)"
  by (simp_all add: preprocess_result_def throw_ApiError_def error_detail_def)

text \<open>
  Claim C7. The three upload operations have the shapes of section 6: preprocess is a POST
  to \<^verbatim>\<open>/upload/preprocess\<close> whose body is a multipart form with exactly the fields
  \<^verbatim>\<open>file\<close>, \<^verbatim>\<open>bank_name\<close> and \<^verbatim>\<open>account_name\<close>; harmonize is a POST to
  \<^verbatim>\<open>/upload/harmonize\<close> whose JSON body is the array of the transactions itself; commit is
  a POST to \<^verbatim>\<open>/upload/commit\<close> whose JSON body is an object with the single key
  \<^verbatim>\<open>transactions\<close> holding that array. An element of the array is the object of the nine
  fields of the transaction, the date as its ISO string and an absent text as \<^verbatim>\<open>null\<close>;
  the bodies for the two January transactions are written out. An ok JSON response, of any
  status, is returned to the caller as it is.
\<close>

theorem uploadApi_shapes:
  "uploadApi_preprocess file bank account =
     \<lparr>url = ''/api/upload/preprocess'', http_method = POST, headers = [],
      body = FormData [(''file'', FormFile file), (''bank_name'', FormText bank),
                       (''account_name'', FormText account)]\<rparr> \<and>
   uploadApi_harmonize txs =
     \<lparr>url = ''/api/upload/harmonize'', http_method = POST,
      headers = [(''Content-Type'', ''application/json'')],
      body = JsonText (JArray (map to_json txs))\<rparr> \<and>
   uploadApi_commit txs =
     \<lparr>url = ''/api/upload/commit'', http_method = POST,
      headers = [(''Content-Type'', ''application/json'')],
      body = JsonText (JObject [(''transactions'', JArray (map to_json txs))])\<rparr> \<and>
   to_json t =
     JObject
       [(''bank_name'', JString (bank_name t)), (''account_name'', JString (account_name t)),
        (''date'', JString (iso_date (date t))), (''amount'', JNumber (amount t)),
        (''description'', (case description t of None \<Rightarrow> JNull | Some s \<Rightarrow> JString s)),
        (''details'', (case details t of None \<Rightarrow> JNull | Some s \<Rightarrow> JString s)),
        (''category'', (case category t of None \<Rightarrow> JNull | Some s \<Rightarrow> JString s)),
        (''transaction_type'',
           (case transaction_type t of None \<Rightarrow> JNull | Some s \<Rightarrow> JString s)),
        (''is_special'', JBool (is_special t))] \<and>
   body (uploadApi_harmonize [groceries, rent]) =
     JsonText (JArray
       [JObject
          [(''bank_name'', JString ''intesa''), (''account_name'', JString ''main''),
           (''date'', JString ''2024-01-05''), (''amount'', JNumber (- 42)),
           (''description'', JString ''Groceries''), (''details'', JNull),
           (''category'', JNull), (''transaction_type'', JNull),
           (''is_special'', JBool False)],
        JObject
          [(''bank_name'', JString ''intesa''), (''account_name'', JString ''main''),
           (''date'', JString ''2024-01-07''), (''amount'', JNumber (- 800)),
           (''description'', JString ''Rent''), (''details'', JNull),
           (''category'', JNull), (''transaction_type'', JNull),
           (''is_special'', JBool False)]]) \<and>
   body (uploadApi_commit [rent]) =
     JsonText (JObject
       [(''transactions'',
         JArray
           [JObject
              [(''bank_name'', JString ''intesa''), (''account_name'', JString ''main''),
               (''date'', JString ''2024-01-07''), (''amount'', JNumber (- 800)),
               (''description'', JString ''Rent''), (''details'', JNull),
               (''category'', JNull), (''transaction_type'', JNull),
               (''is_special'', JBool False)]])]) \<and>
   preprocess_result \<lparr>ok = True, status = st, statusText = reason, content_type_json = ct,
                      response_json = Some j\<rparr> = Inr j \<and>
   request_result \<lparr>ok = True, status = st, statusText = reason, content_type_json = True,
                   response_json = Some j\<rparr> = Inr j"
proof -
  have p: "uploadApi_preprocess file bank account =
     \<lparr>url = ''/api/upload/preprocess'', http_method = POST, headers = [],
      body = FormData [(''file'', FormFile file), (''bank_name'', FormText bank),
                       (''account_name'', FormText account)]\<rparr>"
    by (simp add: uploadApi_preprocess_def API_BASE_URL_def)
  have h: "uploadApi_harmonize ts =
     \<lparr>url = ''/api/upload/harmonize'', http_method = POST,
      headers = [(''Content-Type'', ''application/json'')],
      body = JsonText (JArray (map to_json ts))\<rparr>" for ts
    by (simp add: uploadApi_harmonize_def request_def spread_def API_BASE_URL_def)
  have c: "uploadApi_commit ts =
     \<lparr>url = ''/api/upload/commit'', http_method = POST,
      headers = [(''Content-Type'', ''application/json'')],
      body = JsonText (JObject [(''transactions'', JArray (map to_json ts))])\<rparr>" for ts
    by (simp add: uploadApi_commit_def request_def spread_def API_BASE_URL_def)
  have j: "to_json t =
     JObject
       [(''bank_name'', JString (bank_name t)), (''account_name'', JString (account_name t)),
        (''date'', JString (iso_date (date t))), (''amount'', JNumber (amount t)),
        (''description'', (case description t of None \<Rightarrow> JNull | Some s \<Rightarrow> JString s)),
        (''details'', (case details t of None \<Rightarrow> JNull | Some s \<Rightarrow> JString s)),
        (''category'', (case category t of None \<Rightarrow> JNull | Some s \<Rightarrow> JString s)),
        (''transaction_type'',
           (case transaction_type t of None \<Rightarrow> JNull | Some s \<Rightarrow> JString s)),
        (''is_special'', JBool (is_special t))]" for t
    by (simp add: to_json_def json_date_def json_opt_def)
  have g: "to_json groceries =
     JObject
       [(''bank_name'', JString ''intesa''), (''account_name'', JString ''main''),
        (''date'', JString ''2024-01-05''), (''amount'', JNumber (- 42)),
        (''description'', JString ''Groceries''), (''details'', JNull),
        (''category'', JNull), (''transaction_type'', JNull),
        (''is_special'', JBool False)]"
    by (simp add: j groceries_def iso_date_samples)
  have r: "to_json rent =
     JObject
       [(''bank_name'', JString ''intesa''), (''account_name'', JString ''main''),
        (''date'', JString ''2024-01-07''), (''amount'', JNumber (- 800)),
        (''description'', JString ''Rent''), (''details'', JNull),
        (''category'', JNull), (''transaction_type'', JNull),
        (''is_special'', JBool False)]"
    by (simp add: j rent_def iso_date_samples)
  have bh: "body (uploadApi_harmonize [groceries, rent]) =
     JsonText (JArray [to_json groceries, to_json rent])"
    by (simp add: h)
  have bc: "body (uploadApi_commit [rent]) =
     JsonText (JObject [(''transactions'', JArray [to_json rent])])"
    by (simp add: c)
  have r1: "preprocess_result \<lparr>ok = True, status = st, statusText = reason,
      content_type_json = ct, response_json = Some j\<rparr> = Inr j"
    by (simp add: preprocess_result_def)
  have r2: "request_result \<lparr>ok = True, status = st, statusText = reason,
      content_type_json = True, response_json = Some j\<rparr> = Inr j"
    by (simp add: request_result_def)
  from p h [of txs] c [of txs] j [of t] bh [unfolded g r] bc [unfolded r] r1 r2
  show ?thesis by (simp only: simp_thms)
qed

section \<open>Properties of the upload flow\<close>

text \<open>
  The info box of step 3 cannot be rendered for a preprocessing result without a date
  range, which is what the orchestrator returns when no transaction was parsed.
\<close>

lemma info_box_absent: "date_range r = None \<Longrightarrow> info_box r = Inl TypeError"
  by (simp add: info_box_def)

lemma info_box_nothing_parsed:
  assumes "preprocess registry load_table save_as file bank account = Inr r"
    and "transactions r = []"
  shows "info_box r = Inl TypeError"
proof -
  from assms have "date_range r = None"
    by (auto simp: preprocess_def date_range_of_def split: option.splits prod.splits)
  then show ?thesis by (rule info_box_absent)
qed

lemma same_but_special_refl: "same_but_special a a"
  by (simp add: same_but_special_def)

lemma same_but_special_flag: "same_but_special a b \<Longrightarrow> same_but_special (a\<lparr>is_special := f\<rparr>) b"
  by (simp add: same_but_special_def)

lemma all_same_refl: "list_all2 same_but_special xs xs"
  by (simp add: list_all2_same same_but_special_refl)

lemma all_same_toggle:
  assumes "list_all2 same_but_special xs ys" and "idx < length xs"
  shows "list_all2 same_but_special (xs[idx := (xs ! idx)\<lparr>is_special := f\<rparr>]) ys"
proof -
  from assms have "same_but_special (xs ! idx) (ys ! idx)"
    by (simp add: list_all2_nthD)
  then have "same_but_special ((xs ! idx)\<lparr>is_special := f\<rparr>) (ys ! idx)"
    by (rule same_but_special_flag)
  with assms(1) have "list_all2 same_but_special (xs[idx := (xs ! idx)\<lparr>is_special := f\<rparr>])
      (ys[idx := ys ! idx])"
    by (rule list_all2_update_cong)
  then show ?thesis by simp
qed

lemma harmonized_in_mono: "harmonized_in evs h \<Longrightarrow> harmonized_in (evs @ [e]) h"
  by (auto simp: harmonized_in_def)

lemma from_harmonization_mono: "from_harmonization evs txs \<Longrightarrow> from_harmonization (evs @ [e]) txs"
  by (auto simp: from_harmonization_def intro: harmonized_in_mono)

lemma set_remove_nth: "x \<in> set (remove_nth i xs) \<Longrightarrow> x \<in> set xs"
  by (auto simp: remove_nth_def dest: in_set_takeD in_set_dropD)

text \<open>A step that changes neither the results nor the commit calls in flight keeps the invariant.\<close>

lemma flow_inv_frame:
  assumes "flow_inv evs s"
    and "preprocessingResult s' = preprocessingResult s"
    and "harmonizationResult s' = harmonizationResult s"
    and "transactionsToCommit s' = transactionsToCommit s"
    and "commitResult s' = commitResult s"
    and "\<And>txs. CommitCall txs \<in> set (inflight s') \<Longrightarrow> CommitCall txs \<in> set (inflight s)"
    and "currentStep s' \<le> 1 \<Longrightarrow> currentStep s \<le> 1"
  shows "flow_inv (evs @ [e]) s'"
  using assms unfolding flow_inv_def nothing_downstream_def
  by (auto intro: harmonized_in_mono from_harmonization_mono)

lemma flow_inv_reset:
  assumes "flow_inv evs s"
  shows "flow_inv (evs @ [e]) (resetUpload s)"
  using assms unfolding flow_inv_def nothing_downstream_def
  by (auto simp: resetUpload_def intro: from_harmonization_mono)

lemma flow_inv_toggleSpecial:
  assumes "flow_inv evs s" and "currentStep s = 4" and "idx < length (transactionsToCommit s)"
  shows "flow_inv (evs @ [e]) (toggleSpecial idx s)"
proof -
  from assms(3) have ne: "transactionsToCommit s \<noteq> []" by auto
  with assms(1) obtain h where h: "harmonizationResult s = Some h"
    "list_all2 same_but_special (transactionsToCommit s) (new_transactions h)"
    unfolding flow_inv_def by auto
  from all_same_toggle [OF h(2) assms(3)]
  have "list_all2 same_but_special (transactionsToCommit (toggleSpecial idx s)) (new_transactions h)"
    by (simp add: toggleSpecial_def)
  moreover have "harmonizationResult (toggleSpecial idx s) = Some h"
    "inflight (toggleSpecial idx s) = inflight s" "currentStep (toggleSpecial idx s) = 4"
    using h(1) assms(2) by (simp_all add: toggleSpecial_def)
  ultimately show ?thesis
    using assms(1) h(1) unfolding flow_inv_def
    by (auto intro: harmonized_in_mono from_harmonization_mono)
qed

lemma flow_inv_commitTransactions:
  assumes "flow_inv evs s" and "currentStep s = 4"
  shows "flow_inv (evs @ [e]) (commitTransactions s)"
proof (cases "transactionsToCommit s = []")
  case True
  then have "commitTransactions s = s" by (simp add: commitTransactions_def)
  with assms(1) show ?thesis by (auto intro: flow_inv_frame)
next
  case False
  with assms(1) obtain h where h: "harmonizationResult s = Some h"
    "list_all2 same_but_special (transactionsToCommit s) (new_transactions h)"
    "harmonized_in evs h"
    unfolding flow_inv_def by auto
  then have fh: "from_harmonization (evs @ [e]) (transactionsToCommit s)"
    unfolding from_harmonization_def by (blast intro: harmonized_in_mono)
  have "inflight (commitTransactions s) = inflight s @ [CommitCall (transactionsToCommit s)]"
    "harmonizationResult (commitTransactions s) = harmonizationResult s"
    "transactionsToCommit (commitTransactions s) = transactionsToCommit s"
    "currentStep (commitTransactions s) = 4"
    using False assms(2) by (simp_all add: commitTransactions_def)
  then show ?thesis
    using assms(1) fh unfolding flow_inv_def
    by (auto intro: harmonized_in_mono from_harmonization_mono)
qed

lemma flow_inv_settle:
  assumes "flow_inv evs s"
  shows "flow_inv evs (settle i s)"
  using assms unfolding flow_inv_def nothing_downstream_def
  by (auto simp: settle_def dest: set_remove_nth)

lemma flow_inv_harmonized:
  assumes "flow_inv evs s"
  shows "flow_inv (evs @ [Respond i (HarmonizeOk h)]) (harmonizeTransactions_resolved h s)"
proof -
  let ?s = "harmonizeTransactions_resolved h s"
  have f: "harmonizationResult ?s = Some h" "transactionsToCommit ?s = new_transactions h"
    "inflight ?s = inflight s" "currentStep ?s = 3"
    by (simp_all add: harmonizeTransactions_resolved_def watch_harmonizationResult_def)
  have "harmonized_in (evs @ [Respond i (HarmonizeOk h)]) h"
    by (auto simp: harmonized_in_def)
  then show ?thesis
    using assms f unfolding flow_inv_def
    by (auto simp: all_same_refl intro: from_harmonization_mono)
qed

lemma flow_inv_continue:
  assumes "flow_inv evs s" and "continue c r s = Some s'"
  shows "flow_inv (evs @ [Respond i r]) s'"
proof (cases c)
  case (PreprocessCall f b a)
  with assms show ?thesis
    unfolding flow_inv_def nothing_downstream_def
    by (cases r)
      (auto simp: preprocessFile_resolved_def preprocessFile_rejected_def
        intro: harmonized_in_mono from_harmonization_mono)
next
  case (HarmonizeCall txs)
  show ?thesis
  proof (cases r)
    case (HarmonizeOk h)
    with assms HarmonizeCall show ?thesis by (auto intro: flow_inv_harmonized)
  next
    case (Failed msg)
    with assms HarmonizeCall show ?thesis
      by (auto simp: harmonizeTransactions_rejected_def intro!: flow_inv_frame)
  qed (use assms HarmonizeCall in auto)
next
  case (CommitCall txs)
  with assms show ?thesis
    unfolding flow_inv_def nothing_downstream_def
    by (cases r)
      (auto simp: commitTransactions_resolved_def commitTransactions_rejected_def
        intro: harmonized_in_mono from_harmonization_mono)
next
  case LastDatesCall
  with assms show ?thesis
    by (cases r) (auto simp: commitTransactions_finally_def intro!: flow_inv_frame)
qed

lemma flow_inv_fire:
  assumes "flow_inv evs s" and "fire s e = Some s'"
  shows "flow_inv (evs @ [e]) s'"
proof (cases e)
  case (EditForm d b a)
  with assms show ?thesis by (auto split: if_splits intro!: flow_inv_frame)
next
  case ClickNext
  with assms show ?thesis by (auto simp: goToStep_def split: if_splits intro!: flow_inv_frame)
next
  case (SelectFile f)
  with assms show ?thesis by (auto simp: onFileSelected_def split: if_splits intro!: flow_inv_frame)
next
  case ClickBack
  with assms show ?thesis by (auto simp: goToStep_def split: if_splits intro!: flow_inv_frame)
next
  case ClickUpload
  with assms show ?thesis
    by (auto simp: preprocessFile_def split: if_splits option.splits intro!: flow_inv_frame)
next
  case ClickCancel
  with assms show ?thesis by (auto split: if_splits intro: flow_inv_reset)
next
  case ClickHarmonize
  with assms show ?thesis
    by (auto simp: harmonizeTransactions_def split: if_splits option.splits intro!: flow_inv_frame)
next
  case ToggleDuplicates
  with assms show ?thesis by (auto simp: toggleDuplicates_def split: if_splits intro!: flow_inv_frame)
next
  case ToggleNewTransactions
  with assms show ?thesis
    by (auto simp: toggleNewTransactions_def split: if_splits intro!: flow_inv_frame)
next
  case ClickProceed
  with assms show ?thesis
    by (auto simp: goToStep_def split: if_splits option.splits intro!: flow_inv_frame)
next
  case (ToggleSpecial idx)
  with assms show ?thesis by (auto split: if_splits intro: flow_inv_toggleSpecial)
next
  case ClickSave
  with assms show ?thesis by (auto split: if_splits intro: flow_inv_commitTransactions)
next
  case ClickUploadAnother
  with assms show ?thesis by (auto split: if_splits intro: flow_inv_reset)
next
  case (Respond i r)
  with assms have c: "continue (inflight s ! i) r (settle i s) = Some s'"
    by (auto split: if_splits)
  from flow_inv_continue [OF flow_inv_settle [OF assms(1)] c] Respond show ?thesis by simp
qed

lemma run_snoc:
  "run s (es @ [e]) = (case run s es of None \<Rightarrow> None | Some s' \<Rightarrow> fire s' e)"
  by (induction es arbitrary: s) (auto split: option.splits)

lemma flow_inv_initial: "flow_inv [] (initial today)"
  by (simp add: flow_inv_def nothing_downstream_def initial_def)

lemma flow_inv_run: "run (initial today) evs = Some s \<Longrightarrow> flow_inv evs s"
proof (induction evs arbitrary: s rule: rev_induct)
  case Nil
  then show ?case by (auto simp: flow_inv_initial)
next
  case (snoc e es)
  then obtain s0 where s0: "run (initial today) es = Some s0" "fire s0 e = Some s"
    by (auto simp: run_snoc split: option.splits)
  from snoc.IH [OF s0(1)] s0(2) show ?case by (rule flow_inv_fire)
qed

lemma commit_call_origin:
  assumes "fire s e = Some s'" and "CommitCall txs \<in> set (inflight s')"
  shows "CommitCall txs \<in> set (inflight s) \<or> (e = ClickSave \<and> txs = transactionsToCommit s)"
proof (cases e)
  case (Respond i r)
  with assms have c: "continue (inflight s ! i) r (settle i s) = Some s'"
    by (auto split: if_splits)
  have "CommitCall txs \<in> set (inflight (settle i s))"
    using c assms(2)
    by (cases "inflight s ! i"; cases r)
      (auto simp: preprocessFile_resolved_def preprocessFile_rejected_def
        harmonizeTransactions_resolved_def watch_harmonizationResult_def
        harmonizeTransactions_rejected_def commitTransactions_resolved_def
        commitTransactions_rejected_def commitTransactions_finally_def)
  then show ?thesis by (auto simp: settle_def dest: set_remove_nth)
qed (use assms in \<open>auto simp: goToStep_def onFileSelected_def preprocessFile_def resetUpload_def
      harmonizeTransactions_def toggleDuplicates_def toggleNewTransactions_def toggleSpecial_def
      commitTransactions_def split: if_splits option.splits\<close>)

text \<open>
  Claim C5. In every state that the upload flow can reach, every commit call in flight
  carries a list drawn from the \<open>new_transactions\<close> of a harmonization result that an
  earlier response delivered: the two lists are equal element by element except possibly
  for \<open>is_special\<close>. A commit call is put in flight by the button \<^verbatim>\<open>Save All\<close> only, with
  the current \<open>transactionsToCommit\<close>, and at that moment a harmonization result is
  present, so commit is never invoked before harmonize has run.
\<close>

theorem commit_only_after_harmonize:
  assumes "run (initial today) evs = Some s"
  shows "(\<forall>txs. CommitCall txs \<in> set (inflight s) \<longrightarrow>
            (\<exists>h. harmonized_in evs h \<and> list_all2 same_but_special txs (new_transactions h))) \<and>
         (\<forall>s'. fire s ClickSave = Some s' \<longrightarrow>
            inflight s' = inflight s @ [CommitCall (transactionsToCommit s)] \<and>
            (\<exists>h. harmonizationResult s = Some h \<and> harmonized_in evs h \<and>
                 list_all2 same_but_special (transactionsToCommit s) (new_transactions h))) \<and>
         (\<forall>e s' txs. fire s e = Some s' \<and> CommitCall txs \<in> set (inflight s') \<longrightarrow>
            CommitCall txs \<in> set (inflight s) \<or> (e = ClickSave \<and> txs = transactionsToCommit s))"
proof -
  from assms have inv: "flow_inv evs s" by (rule flow_inv_run)
  have a: "\<forall>txs. CommitCall txs \<in> set (inflight s) \<longrightarrow>
      (\<exists>h. harmonized_in evs h \<and> list_all2 same_but_special txs (new_transactions h))"
    using inv unfolding flow_inv_def from_harmonization_def by blast
  have b: "\<forall>s'. fire s ClickSave = Some s' \<longrightarrow>
      inflight s' = inflight s @ [CommitCall (transactionsToCommit s)] \<and>
      (\<exists>h. harmonizationResult s = Some h \<and> harmonized_in evs h \<and>
           list_all2 same_but_special (transactionsToCommit s) (new_transactions h))"
  proof (intro allI impI)
    fix s'
    assume f: "fire s ClickSave = Some s'"
    then have ne: "transactionsToCommit s \<noteq> []" and s': "s' = commitTransactions s"
      by (auto split: if_splits)
    from ne s' have i: "inflight s' = inflight s @ [CommitCall (transactionsToCommit s)]"
      by (simp add: commitTransactions_def)
    from inv ne obtain h where "harmonizationResult s = Some h" "harmonized_in evs h"
      "list_all2 same_but_special (transactionsToCommit s) (new_transactions h)"
      unfolding flow_inv_def by auto
    with i show "inflight s' = inflight s @ [CommitCall (transactionsToCommit s)] \<and>
      (\<exists>h. harmonizationResult s = Some h \<and> harmonized_in evs h \<and>
           list_all2 same_but_special (transactionsToCommit s) (new_transactions h))"
      by blast
  qed
  have c: "\<forall>e s' txs. fire s e = Some s' \<and> CommitCall txs \<in> set (inflight s') \<longrightarrow>
      CommitCall txs \<in> set (inflight s) \<or> (e = ClickSave \<and> txs = transactionsToCommit s)"
    using commit_call_origin by blast
  from a b c show ?thesis by blast
qed

lemma run_to_review:
  "\<exists>s. run (initial ''2024-01-10'') to_review = Some s \<and>
       transient s = (4, Some jan_result, Some jan_harmonized, [rent\<lparr>is_special := True\<rparr>]) \<and>
       \<not> committing s \<and> inflight s = []"
  by (simp add: to_review_def initial_def canProceedToStep1_def goToStep_def onFileSelected_def
      preprocessFile_def preprocessFile_resolved_def harmonizeTransactions_def
      harmonizeTransactions_resolved_def watch_harmonizationResult_def toggleSpecial_def
      settle_def remove_nth_def transient_def january_file_def jan_result_def jan_harmonized_def
      rent_def)

theorem commit_only_after_harmonize_witness:
  "\<exists>s s'. run (initial ''2024-01-10'') to_review = Some s \<and> fire s ClickSave = Some s' \<and>
     inflight s' = [CommitCall [rent\<lparr>is_special := True\<rparr>]] \<and>
     harmonizationResult s = Some jan_harmonized \<and>
     harmonized_in to_review jan_harmonized \<and>
     list_all2 same_but_special [rent\<lparr>is_special := True\<rparr>] (new_transactions jan_harmonized)"
proof -
  from run_to_review obtain s where s: "run (initial ''2024-01-10'') to_review = Some s"
    "transient s = (4, Some jan_result, Some jan_harmonized, [rent\<lparr>is_special := True\<rparr>])"
    "\<not> committing s" "inflight s = []"
    by blast
  from s(2) have t: "currentStep s = 4" "transactionsToCommit s = [rent\<lparr>is_special := True\<rparr>]"
    "harmonizationResult s = Some jan_harmonized"
    by (simp_all add: transient_def)
  from t s(3) have f: "fire s ClickSave = Some (commitTransactions s)" by simp
  from commit_only_after_harmonize [OF s(1)] f
  obtain h where h: "inflight (commitTransactions s) = inflight s @ [CommitCall (transactionsToCommit s)]"
    "harmonizationResult s = Some h" "harmonized_in to_review h"
    "list_all2 same_but_special (transactionsToCommit s) (new_transactions h)"
    by blast
  from h t s(4) have "inflight (commitTransactions s) = [CommitCall [rent\<lparr>is_special := True\<rparr>]]"
    "harmonized_in to_review jan_harmonized"
    "list_all2 same_but_special [rent\<lparr>is_special := True\<rparr>] (new_transactions jan_harmonized)"
    by simp_all
  with s(1) f t(3) show ?thesis by blast
qed

lemma step_bound_fire:
  assumes "currentStep s \<le> 5" and "fire s e = Some s'"
  shows "currentStep s' \<le> 5"
proof (cases e)
  case (Respond i r)
  with assms have c: "continue (inflight s ! i) r (settle i s) = Some s'"
    by (auto split: if_splits)
  have "currentStep (settle i s) = currentStep s" by (simp add: settle_def)
  with c assms(1) show ?thesis
    by (cases "inflight s ! i"; cases r)
      (auto simp: preprocessFile_resolved_def preprocessFile_rejected_def
        harmonizeTransactions_resolved_def watch_harmonizationResult_def
        harmonizeTransactions_rejected_def commitTransactions_resolved_def
        commitTransactions_rejected_def commitTransactions_finally_def)
qed (use assms in \<open>auto simp: goToStep_def onFileSelected_def preprocessFile_def resetUpload_def
      harmonizeTransactions_def toggleDuplicates_def toggleNewTransactions_def toggleSpecial_def
      commitTransactions_def split: if_splits option.splits\<close>)

lemma step_bound_run: "run (initial today) evs = Some s \<Longrightarrow> currentStep s \<le> 5"
proof (induction evs arbitrary: s rule: rev_induct)
  case Nil
  then show ?case by (auto simp: initial_def)
next
  case (snoc e es)
  then obtain s0 where s0: "run (initial today) es = Some s0" "fire s0 e = Some s"
    by (auto simp: run_snoc split: option.splits)
  from snoc.IH [OF s0(1)] s0(2) show ?case by (rule step_bound_fire)
qed

lemma step_lowering_events:
  assumes "fire s e = Some s'" and "currentStep s' < currentStep s" and "currentStep s \<le> 5"
  shows "e = ClickBack \<or> e = ClickCancel \<or> e = ClickUploadAnother \<or>
         (\<exists>i r. e = Respond i (PreprocessOk r)) \<or> (\<exists>i h. e = Respond i (HarmonizeOk h))"
proof (cases e)
  case (Respond i r)
  with assms have c: "continue (inflight s ! i) r (settle i s) = Some s'"
    by (auto split: if_splits)
  have "currentStep (settle i s) = currentStep s" by (simp add: settle_def)
  with c assms(2,3) have "(\<exists>p. r = PreprocessOk p) \<or> (\<exists>h. r = HarmonizeOk h)"
    by (cases "inflight s ! i"; cases r)
      (auto simp: preprocessFile_rejected_def harmonizeTransactions_rejected_def
        commitTransactions_resolved_def commitTransactions_rejected_def
        commitTransactions_finally_def)
  with Respond show ?thesis by blast
qed (use assms in \<open>auto simp: goToStep_def onFileSelected_def preprocessFile_def
      harmonizeTransactions_def toggleDuplicates_def toggleNewTransactions_def toggleSpecial_def
      commitTransactions_def split: if_splits option.splits\<close>)

text \<open>
  Claim C6 (as amended). In every state that the upload flow can reach: \<^verbatim>\<open>Cancel\<close> (steps
  2 and 3) and \<^verbatim>\<open>Upload Another File\<close> (step 5) run \<open>resetUpload\<close>, which returns to step
  0 and discards the file, the preprocessing result, the harmonization result, the pending
  commit list and the commit result. \<^verbatim>\<open>Back\<close> only changes the current step: at step 1
  there is no transient result yet; from step 4 to step 3 the harmonization result and the
  pending commit list are kept. No other user action lowers the step (a late response to
  preprocess or harmonize can). A reload starts from the initial state, whatever the state
  was.
\<close>

theorem going_back:
  assumes "run (initial today) evs = Some s"
  shows "(\<forall>s'. fire s ClickCancel = Some s' \<or> fire s ClickUploadAnother = Some s' \<longrightarrow>
            s' = resetUpload s \<and> uploadForm_file s' = None \<and>
            transient s' = (0, None, None, []) \<and> commitResult s' = None) \<and>
         (\<forall>s'. currentStep s = 1 \<and> fire s ClickBack = Some s' \<longrightarrow>
            s' = s\<lparr>currentStep := 0\<rparr> \<and> transient s = (1, None, None, []) \<and>
            transient s' = (0, None, None, [])) \<and>
         (\<forall>s'. currentStep s = 4 \<and> fire s ClickBack = Some s' \<longrightarrow>
            s' = s\<lparr>currentStep := 3\<rparr> \<and>
            transient s' = (3, preprocessingResult s, harmonizationResult s, transactionsToCommit s)) \<and>
         (\<forall>e s'. fire s e = Some s' \<and> currentStep s' < currentStep s \<longrightarrow>
            e = ClickBack \<or> e = ClickCancel \<or> e = ClickUploadAnother \<or>
            (\<exists>i r. e = Respond i (PreprocessOk r)) \<or> (\<exists>i h. e = Respond i (HarmonizeOk h))) \<and>
         reload today' s = initial today'"
proof -
  from assms have inv: "flow_inv evs s" by (rule flow_inv_run)
  have a: "\<forall>s'. fire s ClickCancel = Some s' \<or> fire s ClickUploadAnother = Some s' \<longrightarrow>
      s' = resetUpload s \<and> uploadForm_file s' = None \<and>
      transient s' = (0, None, None, []) \<and> commitResult s' = None"
    by (auto simp: resetUpload_def transient_def split: if_splits)
  have b: "\<forall>s'. currentStep s = 1 \<and> fire s ClickBack = Some s' \<longrightarrow>
      s' = s\<lparr>currentStep := 0\<rparr> \<and> transient s = (1, None, None, []) \<and>
      transient s' = (0, None, None, [])"
    using inv unfolding flow_inv_def nothing_downstream_def
    by (auto simp: goToStep_def transient_def)
  have c: "\<forall>s'. currentStep s = 4 \<and> fire s ClickBack = Some s' \<longrightarrow>
      s' = s\<lparr>currentStep := 3\<rparr> \<and>
      transient s' = (3, preprocessingResult s, harmonizationResult s, transactionsToCommit s)"
    by (auto simp: goToStep_def transient_def)
  have d: "\<forall>e s'. fire s e = Some s' \<and> currentStep s' < currentStep s \<longrightarrow>
      e = ClickBack \<or> e = ClickCancel \<or> e = ClickUploadAnother \<or>
      (\<exists>i r. e = Respond i (PreprocessOk r)) \<or> (\<exists>i h. e = Respond i (HarmonizeOk h))"
    using step_lowering_events step_bound_run [OF assms] by blast
  have e: "reload today' s = initial today'"
    by (simp add: reload_def)
  from a b c d e show ?thesis by blast
qed

lemma run_append:
  "run s (es @ es') = (case run s es of None \<Rightarrow> None | Some s' \<Rightarrow> run s' es')"
  by (induction es arbitrary: s) (auto split: option.splits)

theorem going_back_witness:
  "\<exists>s. run (initial ''2024-01-10'') to_review = Some s \<and>
       fire s ClickBack = Some (s\<lparr>currentStep := 3\<rparr>) \<and>
       transient (s\<lparr>currentStep := 3\<rparr>)
         = (3, Some jan_result, Some jan_harmonized, [rent\<lparr>is_special := True\<rparr>]) \<and>
       run (initial ''2024-01-10'') (to_review @ [ClickBack]) = Some (s\<lparr>currentStep := 3\<rparr>) \<and>
       fire (s\<lparr>currentStep := 3\<rparr>) ClickCancel = Some (resetUpload (s\<lparr>currentStep := 3\<rparr>)) \<and>
       transient (resetUpload (s\<lparr>currentStep := 3\<rparr>)) = (0, None, None, []) \<and>
       reload ''2024-01-11'' s = initial ''2024-01-11''"
proof -
  from run_to_review obtain s where s: "run (initial ''2024-01-10'') to_review = Some s"
    "transient s = (4, Some jan_result, Some jan_harmonized, [rent\<lparr>is_special := True\<rparr>])"
    by blast
  let ?b = "s\<lparr>currentStep := 3\<rparr>"
  from s(2) have t: "currentStep s = 4" "preprocessingResult s = Some jan_result"
    "harmonizationResult s = Some jan_harmonized"
    "transactionsToCommit s = [rent\<lparr>is_special := True\<rparr>]"
    by (simp_all add: transient_def)
  from t(1) have f: "fire s ClickBack = Some ?b" by (simp add: goToStep_def)
  from going_back [OF s(1), of "''2024-01-11''"] t(1) f
  have kept: "transient ?b = (3, preprocessingResult s, harmonizationResult s, transactionsToCommit s)"
    and rl: "reload ''2024-01-11'' s = initial ''2024-01-11''"
    by blast+
  have r2: "run (initial ''2024-01-10'') (to_review @ [ClickBack]) = Some ?b"
    by (simp add: run_snoc s(1) f del: fire.simps)
  have g: "fire ?b ClickCancel = Some (resetUpload ?b)" by simp
  from going_back [OF r2, of "''2024-01-11''"] g
  have "transient (resetUpload ?b) = (0, None, None, [])" by blast
  with s(1) f kept t rl r2 g show ?thesis by auto
qed

text \<open>
  Claim C6 as stated has every backward transition discard the pending commit list. After
  the final review was reached and a row was marked special, \<^verbatim>\<open>Back\<close> leads from step 4
  to step 3 with the harmonization result and the edited commit list still in place.
\<close>

theorem back_keeps_commit_list_counterexample:
  "map_option transient (run (initial ''2024-01-10'') to_review)
     = Some (4, Some jan_result, Some jan_harmonized, [rent\<lparr>is_special := True\<rparr>]) \<and>
   map_option transient (run (initial ''2024-01-10'') (to_review @ [ClickBack]))
     = Some (3, Some jan_result, Some jan_harmonized, [rent\<lparr>is_special := True\<rparr>]) \<and>
   [rent\<lparr>is_special := True\<rparr>] \<noteq> [] \<and>
   [rent\<lparr>is_special := True\<rparr>] \<noteq> new_transactions jan_harmonized"
proof -
  from run_to_review obtain s where s: "run (initial ''2024-01-10'') to_review = Some s"
    "transient s = (4, Some jan_result, Some jan_harmonized, [rent\<lparr>is_special := True\<rparr>])"
    by blast
  from s(2) have "currentStep s = 4" by (simp add: transient_def)
  then have f: "fire s ClickBack = Some (s\<lparr>currentStep := 3\<rparr>)" by (simp add: goToStep_def)
  have r2: "run (initial ''2024-01-10'') (to_review @ [ClickBack]) = Some (s\<lparr>currentStep := 3\<rparr>)"
    by (simp add: run_snoc s(1) f del: fire.simps)
  have t2: "transient (s\<lparr>currentStep := 3\<rparr>)
      = (3, Some jan_result, Some jan_harmonized, [rent\<lparr>is_special := True\<rparr>])"
    using s(2) by (simp add: transient_def)
  have ne: "[rent\<lparr>is_special := True\<rparr>] \<noteq> new_transactions jan_harmonized"
    by (simp add: jan_harmonized_def rent_def)
  from s r2 t2 ne show ?thesis by simp
qed

section \<open>Properties of the dashboard\<close>

lemma label_le:
  assumes "y < 10000" "y' < 10000" "m < 100" "m' < 100"
  shows "(addLeadingZeros y 4 @ ''-'' @ addLeadingZeros m 2
          \<le> addLeadingZeros y' 4 @ ''-'' @ addLeadingZeros m' 2) = ((y, m) \<le> (y', m'))"
proof -
  let ?y = "addLeadingZeros y 4" and ?y' = "addLeadingZeros y' 4"
  let ?m = "addLeadingZeros m 2" and ?m' = "addLeadingZeros m' 2"
  have "(?y @ CHR ''-'' # ?m \<le> ?y' @ CHR ''-'' # ?m') = (?y < ?y' \<or> ?y = ?y' \<and> ?m \<le> ?m')"
    using assms(1,2)
    by (simp add: addLeadingZeros_4 order_le_less [of "digit_char (y mod 10)"]) auto
  also have "\<dots> = (y < y' \<or> y = y' \<and> m \<le> m')"
    using assms by (simp add: year_string_less year_string_eq month_string_le)
  also have "\<dots> = ((y, m) \<le> (y', m'))"
    by auto
  finally show ?thesis by simp
qed

lemma month_label_le:
  assumes "valid_date (date t)" and "valid_date (date t')"
  shows "(month_label t \<le> month_label t') = (calendar_month t \<le> calendar_month t')"
proof -
  from assms have "year_of (date t) < 10000" "year_of (date t') < 10000"
    "month_of (date t) < 100" "month_of (date t') < 100"
    by (simp_all add: valid_date_def validateDate_def)
  then show ?thesis
    unfolding month_label_def calendar_month_def by (rule label_le)
qed

lemma month_label_eq:
  assumes "valid_date (date t)" and "valid_date (date t')"
  shows "(month_label t = month_label t') = (calendar_month t = calendar_month t')"
  using month_label_le [OF assms] month_label_le [OF assms(2) assms(1)]
  by (auto simp: month_label_def calendar_month_def)

text \<open>On a valid date the key of the code is the label of the month.\<close>

lemma monthKey_valid:
  assumes "valid_date (date t)"
  shows "monthKey t = Inr (month_label t)"
  using assms
  by (simp add: monthKey_def parseISO_def startOfMonth_def format_def format_yyyy_MM_def
      month_label_def valid_date_def year_of_def month_of_def)

lemma monthKey_invalid:
  assumes "\<not> validateDate (date t)"
  shows "monthKey t = Inl RangeError"
  using assms by (simp add: monthKey_def parseISO_def startOfMonth_def format_def)

lemma forEach_group_valid:
  assumes "\<forall>t \<in> set txs. valid_date (date t)"
  shows "forEach_group txs g = Inr (fold (\<lambda>t grouped. group_push (month_label t) t grouped) txs g)"
  using assms by (induction txs arbitrary: g) (simp_all add: monthKey_valid)

lemma groupByMonth_valid:
  assumes "\<forall>t \<in> set txs. valid_date (date t)"
  shows "groupByMonth txs = Inr (grouped_by_label txs)"
  using forEach_group_valid [OF assms] by (simp add: groupByMonth_def grouped_by_label_def)

text \<open>A date that is no calendar date makes the loop, and both computations, raise.\<close>

lemma forEach_group_invalid:
  assumes "t \<in> set txs" and "\<not> validateDate (date t)"
  shows "forEach_group txs g = Inl RangeError"
  using assms
proof (induction txs arbitrary: g)
  case Nil
  then show ?case by simp
next
  case (Cons u txs)
  show ?case
  proof (cases "monthKey u")
    case (Inl e)
    have "e = RangeError"
      using Inl by (auto simp: monthKey_def format_def split: option.splits)
    with Inl show ?thesis by simp
  next
    case (Inr k)
    with Cons.prems have "u \<noteq> t" by (auto simp: monthKey_invalid)
    with Cons.prems have "t \<in> set txs" by simp
    with Cons.IH Cons.prems(2) Inr show ?thesis by simp
  qed
qed

lemma calculate_invalid_date:
  assumes "t \<in> set txs" and "\<not> validateDate (date t)"
  shows "calculateMonthlyAggregates txs = Inl RangeError"
    and "calculateCumulative txs = Inl RangeError"
  using forEach_group_invalid [OF assms]
  by (simp_all add: calculateMonthlyAggregates_def calculateCumulative_def groupByMonth_def)

lemma keys_group_push:
  "map fst (group_push k t g) = (if k \<in> set (map fst g) then map fst g else map fst g @ [k])"
  by (induction g) force+

lemma map_of_group_push:
  "map_of (group_push k t g) k' =
     (if k' = k then Some ((case map_of g k of None \<Rightarrow> [] | Some ts \<Rightarrow> ts) @ [t])
      else map_of g k')"
  by (induction g) auto

lemma grouped_snoc:
  "grouped_by_label (txs @ [t]) = group_push (month_label t) t (grouped_by_label txs)"
  by (simp add: grouped_by_label_def)

lemma grouped_keys:
  "distinct (map fst (grouped_by_label txs)) \<and>
   set (map fst (grouped_by_label txs)) = month_label ` set txs"
proof (induction txs rule: rev_induct)
  case Nil
  then show ?case by (simp add: grouped_by_label_def)
next
  case (snoc t txs)
  then show ?case
    by (auto simp: grouped_snoc keys_group_push)
qed

lemma in_month_absent: "m \<notin> month_label ` set txs \<Longrightarrow> in_month m txs = []"
  by (induction txs) (auto simp: in_month_def)

lemma in_month_snoc:
  "in_month m (txs @ [t]) = (if month_label t = m then in_month m txs @ [t] else in_month m txs)"
  by (simp add: in_month_def)

lemma grouped_get:
  "map_of (grouped_by_label txs) m
     = (if m \<in> month_label ` set txs then Some (in_month m txs) else None)"
proof (induction txs rule: rev_induct)
  case Nil
  then show ?case by (simp add: grouped_by_label_def)
next
  case (snoc t txs)
  show ?case
  proof (cases "m = month_label t")
    case True
    show ?thesis
    proof (cases "m \<in> month_label ` set txs")
      case True
      with snoc \<open>m = month_label t\<close> show ?thesis
        by (simp add: grouped_snoc map_of_group_push in_month_snoc)
    next
      case False
      with snoc \<open>m = month_label t\<close> in_month_absent [OF False] show ?thesis
        by (simp add: grouped_snoc map_of_group_push in_month_snoc)
    qed
  next
    case False
    with snoc show ?thesis
      by (auto simp: grouped_snoc map_of_group_push in_month_snoc)
  qed
qed

text \<open>The sorted keys of the \<^verbatim>\<open>Map\<close> without the last are the months reported on.\<close>

lemma months_of_grouped: "months_of (grouped_by_label txs) = included_months txs"
proof -
  let ?ks = "map fst (grouped_by_label txs)" and ?ls = "remdups (map month_label txs)"
  have "sort ?ks = sort ?ls"
  proof (rule sorted_distinct_set_unique)
    show "sorted (sort ?ks)" "sorted (sort ?ls)" by simp_all
    show "distinct (sort ?ks)" using grouped_keys [of txs] by simp
    show "distinct (sort ?ls)" by simp
    show "set (sort ?ks) = set (sort ?ls)" using grouped_keys [of txs] by simp
  qed
  then show ?thesis by (simp add: months_of_def included_months_def)
qed

lemma map_months_total:
  assumes "\<And>m. m \<in> set ms \<Longrightarrow> map_of g m = Some (h m)"
  shows "map_months f g ms = Inr (map (\<lambda>m. f m (h m)) ms)"
  using assms by (induction ms) auto

lemma sorted_last_Max:
  fixes xs :: "'a::linorder list"
  assumes "sorted xs" and "xs \<noteq> []"
  shows "last xs = Max (set xs)"
proof -
  from assms(2) have xs: "xs = butlast xs @ [last xs]" by simp
  with assms(1) have "sorted (butlast xs @ [last xs])" by simp
  then have "\<forall>x \<in> set (butlast xs). x \<le> last xs"
    by (simp add: sorted_append)
  then have "\<forall>x \<in> set xs. x \<le> last xs"
    by (subst (asm) xs, subst xs) auto
  with assms(2) show ?thesis
    by (intro Max_eqI [symmetric]) auto
qed

lemma set_butlast_sort:
  fixes ks :: "'a::linorder list"
  assumes "distinct ks" and "ks \<noteq> []"
  shows "set (butlast (sort ks)) = set ks - {Max (set ks)}"
proof -
  let ?s = "sort ks"
  have ne: "?s \<noteq> []" using assms(2) by (metis length_0_conv length_sort)
  have d: "distinct ?s" using assms(1) by simp
  have l: "last ?s = Max (set ks)"
    using sorted_last_Max [of ?s] ne by simp
  from ne have s: "?s = butlast ?s @ [last ?s]" by simp
  from d have "distinct (butlast ?s @ [last ?s])" using s by simp
  then have nl: "last ?s \<notin> set (butlast ?s)" by simp
  have "set ?s = set (butlast ?s) \<union> {last ?s}"
    by (subst s) simp
  then have "set (butlast ?s) = set ?s - {last ?s}" using nl by auto
  then show ?thesis by (simp add: l)
qed

lemma most_recent_label:
  assumes valid: "\<forall>t \<in> set txs. valid_date (date t)" and t: "t \<in> set txs"
  shows "(month_label t = Max (month_label ` set txs)) = (calendar_month t = most_recent_month txs)"
proof -
  have fin: "finite (month_label ` set txs)" "month_label ` set txs \<noteq> {}"
    "finite (calendar_month ` set txs)" "calendar_month ` set txs \<noteq> {}"
    using t by auto
  from Max_in [OF fin(1,2)] obtain t0 where t0: "t0 \<in> set txs"
    "Max (month_label ` set txs) = month_label t0"
    by auto
  have "calendar_month u \<le> calendar_month t0" if "u \<in> set txs" for u
  proof -
    from that have "month_label u \<le> Max (month_label ` set txs)" by simp
    with t0 that valid show ?thesis by (simp add: month_label_le)
  qed
  with t0(1) have "Max (calendar_month ` set txs) = calendar_month t0"
    by (intro Max_eqI) auto
  then have m: "most_recent_month txs = calendar_month t0"
    by (simp add: most_recent_month_def)
  from valid t t0(1) show ?thesis
    by (simp add: t0(2) m month_label_eq)
qed

lemma included_months_props:
  "sorted (included_months txs)" "distinct (included_months txs)"
  "set (included_months txs) \<subseteq> month_label ` set txs"
proof -
  show "sorted (included_months txs)"
    by (simp add: included_months_def sorted_butlast)
  show "distinct (included_months txs)"
    by (simp add: included_months_def distinct_butlast)
  have "set (butlast (sort (remdups (map month_label txs))))
      \<subseteq> set (sort (remdups (map month_label txs)))"
    by (meson in_set_butlastD subsetI)
  then show "set (included_months txs) \<subseteq> month_label ` set txs"
    by (simp add: included_months_def)
qed

lemma included_months_recent:
  assumes valid: "\<forall>t \<in> set txs. valid_date (date t)" and t: "t \<in> set txs"
  shows "(month_label t \<in> set (included_months txs)) = (calendar_month t \<noteq> most_recent_month txs)"
proof -
  let ?ks = "remdups (map month_label txs)"
  have d: "distinct ?ks" and s: "set ?ks = month_label ` set txs"
    by simp_all
  from t s have ne: "?ks \<noteq> []" by auto
  have "set (included_months txs) = month_label ` set txs - {Max (month_label ` set txs)}"
    using set_butlast_sort [OF d ne] s by (simp add: included_months_def)
  then have "(month_label t \<in> set (included_months txs))
      = (month_label t \<noteq> Max (month_label ` set txs))"
    using t by auto
  with most_recent_label [OF valid t] show ?thesis by simp
qed

lemma calculateMonthlyAggregates_eq:
  assumes "\<forall>t \<in> set txs. valid_date (date t)"
  shows "calculateMonthlyAggregates txs
     = Inr (map (\<lambda>m. monthly_row m (in_month m txs)) (included_months txs))"
proof -
  have "map_of (grouped_by_label txs) m = Some (in_month m txs)"
    if "m \<in> set (included_months txs)" for m
    using that included_months_props(3) [of txs] by (auto simp: grouped_get)
  then have "map_months monthly_row (grouped_by_label txs) (included_months txs)
      = Inr (map (\<lambda>m. monthly_row m (in_month m txs)) (included_months txs))"
    by (rule map_months_total)
  then show ?thesis
    by (simp add: calculateMonthlyAggregates_def groupByMonth_valid [OF assms] months_of_grouped)
qed

lemma calculateCumulative_eq:
  assumes "\<forall>t \<in> set txs. valid_date (date t)"
  shows "calculateCumulative txs
     = Inr (accumulate (Finite 0)
         (map (\<lambda>m. (m, reduce_sum amount (in_month m txs))) (included_months txs)))"
proof -
  have "map_of (grouped_by_label txs) m = Some (in_month m txs)"
    if "m \<in> set (included_months txs)" for m
    using that included_months_props(3) [of txs] by (auto simp: grouped_get)
  then have "map_months (\<lambda>m monthTransactions. (m, reduce_sum amount monthTransactions))
        (grouped_by_label txs) (included_months txs)
      = Inr (map (\<lambda>m. (m, reduce_sum amount (in_month m txs))) (included_months txs))"
    by (rule map_months_total)
  then show ?thesis
    by (simp add: calculateCumulative_def groupByMonth_valid [OF assms] months_of_grouped)
qed

lemma reduce_sum_double: "reduce_sum g xs = double_sum (map g xs)"
  by (simp add: reduce_sum_def double_sum_def foldl_map)

lemma monthly_row_sums:
  "month (monthly_row m xs) = m"
  "income (monthly_row m xs) = double_sum (map amount (filter (\<lambda>t. 0 < amount t) xs))"
  "expenses (monthly_row m xs)
     = js_neg (double_sum (map (\<lambda>t. \<bar>amount t\<bar>) (filter (\<lambda>t. amount t < 0) xs)))"
  "balance (monthly_row m xs)
     = js_sub (double_sum (map amount (filter (\<lambda>t. 0 < amount t) xs)))
         (double_sum (map (\<lambda>t. \<bar>amount t\<bar>) (filter (\<lambda>t. amount t < 0) xs)))"
  by (simp_all add: monthly_row_def Let_def reduce_sum_double)

lemma accumulate_months: "map cmonth (accumulate c totals) = map fst totals"
  by (induction c totals rule: accumulate.induct) auto

lemma accumulate_last:
  "totals \<noteq> [] \<Longrightarrow> cumulative (last (accumulate c totals)) = foldl js_add c (map snd totals)"
proof (induction c totals rule: accumulate.induct)
  case (1 c)
  then show ?case by simp
next
  case (2 c m monthTotal rest)
  then show ?case
    by (cases rest) auto
qed

lemma cumulative_running:
  assumes "included_months txs \<noteq> []"
  shows "cumulative (last (accumulate (Finite 0)
            (map (\<lambda>m. (m, reduce_sum amount (in_month m txs))) (included_months txs))))
    = running_total (map (\<lambda>m. double_sum (map amount (in_month m txs))) (included_months txs))"
proof -
  let ?totals = "map (\<lambda>m. (m, reduce_sum amount (in_month m txs))) (included_months txs)"
  from assms have "?totals \<noteq> []" by simp
  then have "cumulative (last (accumulate (Finite 0) ?totals))
      = foldl js_add (Finite 0) (map snd ?totals)"
    by (rule accumulate_last)
  also have "map snd ?totals
      = map (\<lambda>m. double_sum (map amount (in_month m txs))) (included_months txs)"
    by (simp add: reduce_sum_double comp_def)
  finally show ?thesis by (simp add: running_total_def)
qed

text \<open>Sums of whole amounts: no addition rounds, and the sums are the exact ones.\<close>

lemma sum_by_key:
  fixes f :: "'a \<Rightarrow> real"
  assumes "distinct ms"
  shows "sum_list (map (\<lambda>m. sum_list (map f (filter (\<lambda>t. k t = m) xs))) ms)
    = sum_list (map f (filter (\<lambda>t. k t \<in> set ms) xs))"
  using assms
proof (induction ms)
  case Nil
  then show ?case by simp
next
  case (Cons m ms)
  then have nm: "m \<notin> set ms" by simp
  have split: "sum_list (map f (filter (\<lambda>t. k t = m \<or> k t \<in> set ms) xs))
      = sum_list (map f (filter (\<lambda>t. k t = m) xs)) + sum_list (map f (filter (\<lambda>t. k t \<in> set ms) xs))"
    using nm by (induction xs) auto
  from Cons show ?case by (simp add: split)
qed

lemma sum_abs_filter_le:
  fixes f :: "'a \<Rightarrow> real"
  shows "sum_list (map (\<lambda>t. \<bar>f t\<bar>) (filter P xs)) \<le> sum_list (map (\<lambda>t. \<bar>f t\<bar>) xs)"
  by (induction xs) auto

lemma sum_list_whole:
  fixes xs :: "real list"
  shows "list_all (\<lambda>x. x \<in> \<int>) xs \<Longrightarrow> sum_list xs \<in> \<int>"
  by (induction xs) auto

lemma double_sum_whole:
  assumes "list_all (\<lambda>x. x \<in> \<int>) xs" and "sum_list (map abs xs) < 2 ^ 53"
  shows "double_sum xs = Finite (sum_list xs)"
  using foldl_js_add_whole [of xs 0] assms by (simp add: double_sum_def)

lemma whole_filter:
  assumes "whole_amounts txs"
  shows "list_all (\<lambda>x. x \<in> \<int>) (map amount (filter R txs))"
    and "list_all (\<lambda>x. x \<in> \<int>) (map (\<lambda>t. \<bar>amount t\<bar>) (filter R txs))"
    and "sum_list (map (\<lambda>t. \<bar>amount t\<bar>) (filter R txs)) < 2 ^ 53"
proof -
  from assms have w: "\<forall>t \<in> set txs. amount t \<in> \<int>"
    and b: "sum_list (map (\<lambda>t. \<bar>amount t\<bar>) txs) < 2 ^ 53"
    by (simp_all add: whole_amounts_def list_all_iff frac_eq_0_iff)
  from w show "list_all (\<lambda>x. x \<in> \<int>) (map amount (filter R txs))"
    by (simp add: list_all_iff)
  from w show "list_all (\<lambda>x. x \<in> \<int>) (map (\<lambda>t. \<bar>amount t\<bar>) (filter R txs))"
    by (simp add: list_all_iff)
  from sum_abs_filter_le [of amount R txs] b
  show "sum_list (map (\<lambda>t. \<bar>amount t\<bar>) (filter R txs)) < 2 ^ 53" by simp
qed

lemma sum_signed: "sum_list (map amount xs) = sum_positive xs - sum_abs_negative xs"
  by (induction xs) (auto simp: sum_positive_def sum_abs_negative_def)

lemma sum_positive_nonneg: "0 \<le> sum_positive xs"
  unfolding sum_positive_def by (rule sum_list_nonneg) auto

lemma sum_abs_negative_nonneg: "0 \<le> sum_abs_negative xs"
  unfolding sum_abs_negative_def by (rule sum_list_nonneg) auto

lemma abs_sum_le: "\<bar>sum_list (map amount xs)\<bar> \<le> sum_list (map (\<lambda>t. \<bar>amount t\<bar>) xs)"
  using sum_list_abs [of "map amount xs"] by (simp add: comp_def)

lemma month_sums_whole:
  assumes "whole_amounts txs"
  shows "double_sum (map amount (filter (\<lambda>t. 0 < amount t) (in_month m txs)))
      = Finite (sum_positive (in_month m txs))"
    and "double_sum (map (\<lambda>t. \<bar>amount t\<bar>) (filter (\<lambda>t. amount t < 0) (in_month m txs)))
      = Finite (sum_abs_negative (in_month m txs))"
    and "js_sub (Finite (sum_positive (in_month m txs))) (Finite (sum_abs_negative (in_month m txs)))
      = Finite (sum_positive (in_month m txs) - sum_abs_negative (in_month m txs))"
    and "double_sum (map amount (in_month m txs)) = Finite (sum_list (map amount (in_month m txs)))"
proof -
  let ?pos = "filter (\<lambda>t. 0 < amount t) (in_month m txs)"
  let ?neg = "filter (\<lambda>t. amount t < 0) (in_month m txs)"
  have pos: "?pos = filter (\<lambda>t. month_label t = m \<and> 0 < amount t) txs"
    and neg: "?neg = filter (\<lambda>t. month_label t = m \<and> amount t < 0) txs"
    by (simp_all add: in_month_def)
  have a: "map abs (map amount xs) = map (\<lambda>t. \<bar>amount t\<bar>) xs"
    "map abs (map (\<lambda>t. \<bar>amount t\<bar>) xs) = map (\<lambda>t. \<bar>amount t\<bar>) xs" for xs :: "Transaction list"
    by simp_all
  show p: "double_sum (map amount ?pos) = Finite (sum_positive (in_month m txs))"
    unfolding sum_positive_def pos
    by (rule double_sum_whole) (simp_all only: a whole_filter [OF assms])
  show n: "double_sum (map (\<lambda>t. \<bar>amount t\<bar>) ?neg) = Finite (sum_abs_negative (in_month m txs))"
    unfolding sum_abs_negative_def neg
    by (rule double_sum_whole) (simp_all only: a whole_filter [OF assms])
  have w: "list_all (\<lambda>x. x \<in> \<int>) (map amount (in_month m txs))"
    and b: "sum_list (map (\<lambda>t. \<bar>amount t\<bar>) (in_month m txs)) < 2 ^ 53"
    unfolding in_month_def by (rule whole_filter [OF assms])+
  show t: "double_sum (map amount (in_month m txs)) = Finite (sum_list (map amount (in_month m txs)))"
    by (rule double_sum_whole) (simp_all only: a w b)
  have i: "sum_positive (in_month m txs) - sum_abs_negative (in_month m txs) \<in> \<int>"
    using sum_list_whole [OF w] by (simp add: sum_signed)
  have "\<bar>sum_positive (in_month m txs) - sum_abs_negative (in_month m txs)\<bar> < 2 ^ 53"
    using abs_sum_le [of "in_month m txs"] b by (simp add: sum_signed)
  with i have "to_double (sum_positive (in_month m txs) - sum_abs_negative (in_month m txs))
      = Finite (sum_positive (in_month m txs) - sum_abs_negative (in_month m txs))"
    by (rule to_double_whole)
  then show "js_sub (Finite (sum_positive (in_month m txs))) (Finite (sum_abs_negative (in_month m txs)))
      = Finite (sum_positive (in_month m txs) - sum_abs_negative (in_month m txs))"
    by (simp add: js_sub_def)
qed

lemma running_total_whole:
  assumes whole: "whole_amounts txs" and valid: "\<forall>t \<in> set txs. valid_date (date t)"
  shows "running_total (map (\<lambda>m. double_sum (map amount (in_month m txs))) (included_months txs))
    = Finite (sum_list (map amount (filter (\<lambda>t. calendar_month t \<noteq> most_recent_month txs) txs)))"
proof -
  let ?ms = "included_months txs"
  let ?S = "\<lambda>m. sum_list (map amount (in_month m txs))"
  let ?A = "\<lambda>m. sum_list (map (\<lambda>t. \<bar>amount t\<bar>) (in_month m txs))"
  let ?inc = "filter (\<lambda>t. month_label t \<in> set ?ms) txs"
  have d: "distinct ?ms" by (rule included_months_props)
  have "running_total (map (\<lambda>m. double_sum (map amount (in_month m txs))) ?ms)
      = foldl (\<lambda>s x. js_add s (Finite x)) (Finite 0) (map ?S ?ms)"
    by (simp add: running_total_def month_sums_whole(4) [OF whole] foldl_map)
  also have "\<dots> = Finite (0 + sum_list (map ?S ?ms))"
  proof (rule foldl_js_add_whole)
    have "\<forall>m \<in> set ?ms. ?S m \<in> \<int>"
    proof
      fix m
      have "list_all (\<lambda>x. x \<in> \<int>) (map amount (in_month m txs))"
        unfolding in_month_def by (rule whole_filter [OF whole])
      then show "?S m \<in> \<int>" by (rule sum_list_whole)
    qed
    then show "list_all (\<lambda>x. x \<in> \<int>) (map ?S ?ms)"
      by (simp add: list_all_iff)
    show "(0::real) \<in> \<int>" by simp
    have "sum_list (map abs (map ?S ?ms)) \<le> sum_list (map ?A ?ms)"
      unfolding map_map comp_def by (rule sum_list_mono) (rule abs_sum_le)
    also have "\<dots> = sum_list (map (\<lambda>t. \<bar>amount t\<bar>) ?inc)"
      using sum_by_key [OF d, of "\<lambda>t. \<bar>amount t\<bar>" month_label txs] by (simp add: in_month_def)
    also have "\<dots> < 2 ^ 53"
      by (rule whole_filter [OF whole])
    finally show "\<bar>0::real\<bar> + sum_list (map abs (map ?S ?ms)) < 2 ^ 53" by simp
  qed
  also have "sum_list (map ?S ?ms) = sum_list (map amount ?inc)"
    using sum_by_key [OF d, of amount month_label txs] by (simp add: in_month_def)
  also have "?inc = filter (\<lambda>t. calendar_month t \<noteq> most_recent_month txs) txs"
    by (rule filter_cong) (simp_all add: included_months_recent [OF valid])
  finally show ?thesis by simp
qed

text \<open>
  Claim C10, with the sums as the code forms them. For transactions with valid dates,
  \<open>calculateMonthlyAggregates\<close> and \<open>calculateCumulative\<close> return (no date fails to
  format and no lookup fails) one row per included month, in ascending order, and the
  included months are the months present except the most recent calendar month: a
  transaction's month is included if and only if it is not the most recent one. In every
  row \<open>income\<close> is the sum of the positive amounts of the month and \<open>expenses\<close> is
  minus the sum of the absolute values of its negative amounts, each sum added from the
  left in double arithmetic, and \<open>balance\<close> is the double difference of the two sums.
  The cumulative value of the last included month is the double sum, month after month,
  of the monthly totals, each the double sum of the amounts of the month. When the amounts
  are whole numbers whose absolute values add up to less than \<open>2 ^ 53\<close>, no addition
  rounds: the three figures of a row are the exact sums and their difference, and the
  cumulative value of the last included month is the exact sum of the amounts of all
  transactions of all included months.
\<close>

theorem monthly_and_cumulative:
  assumes "\<forall>t \<in> set txs. valid_date (date t)"
  shows "\<exists>rows points.
     calculateMonthlyAggregates txs = Inr rows \<and> calculateCumulative txs = Inr points \<and>
     map month rows = included_months txs \<and> map cmonth points = included_months txs \<and>
     sorted (included_months txs) \<and> distinct (included_months txs) \<and>
     set (included_months txs) \<subseteq> month_label ` set txs \<and>
     (\<forall>t \<in> set txs.
        (month_label t \<in> set (included_months txs)) = (calendar_month t \<noteq> most_recent_month txs)) \<and>
     (\<forall>r \<in> set rows.
        income r = double_sum (map amount (filter (\<lambda>t. 0 < amount t) (in_month (month r) txs))) \<and>
        expenses r
          = js_neg (double_sum (map (\<lambda>t. \<bar>amount t\<bar>)
              (filter (\<lambda>t. amount t < 0) (in_month (month r) txs)))) \<and>
        balance r
          = js_sub (double_sum (map amount (filter (\<lambda>t. 0 < amount t) (in_month (month r) txs))))
              (double_sum (map (\<lambda>t. \<bar>amount t\<bar>)
                (filter (\<lambda>t. amount t < 0) (in_month (month r) txs))))) \<and>
     (points \<noteq> [] \<longrightarrow>
        cumulative (last points)
          = running_total (map (\<lambda>m. double_sum (map amount (in_month m txs)))
              (included_months txs))) \<and>
     (whole_amounts txs \<longrightarrow>
        (\<forall>r \<in> set rows.
           income r = Finite (sum_positive (in_month (month r) txs)) \<and>
           expenses r = Finite (- sum_abs_negative (in_month (month r) txs)) \<and>
           balance r
             = Finite (sum_positive (in_month (month r) txs)
                 - sum_abs_negative (in_month (month r) txs))) \<and>
        (points \<noteq> [] \<longrightarrow>
           cumulative (last points)
             = Finite (sum_list (map amount
                 (filter (\<lambda>t. calendar_month t \<noteq> most_recent_month txs) txs)))))"
proof -
  let ?rows = "map (\<lambda>m. monthly_row m (in_month m txs)) (included_months txs)"
  let ?points = "accumulate (Finite 0)
    (map (\<lambda>m. (m, reduce_sum amount (in_month m txs))) (included_months txs))"
  let ?run = "running_total (map (\<lambda>m. double_sum (map amount (in_month m txs)))
    (included_months txs))"
  have a: "calculateMonthlyAggregates txs = Inr ?rows"
    by (rule calculateMonthlyAggregates_eq [OF assms])
  have b: "calculateCumulative txs = Inr ?points"
    by (rule calculateCumulative_eq [OF assms])
  have c: "map month ?rows = included_months txs"
    by (simp add: comp_def monthly_row_sums)
  have d: "map cmonth ?points = included_months txs"
    by (simp add: accumulate_months comp_def)
  have e: "\<forall>t \<in> set txs.
      (month_label t \<in> set (included_months txs)) = (calendar_month t \<noteq> most_recent_month txs)"
    using included_months_recent [OF assms] by blast
  have f: "\<forall>r \<in> set ?rows.
      income r = double_sum (map amount (filter (\<lambda>t. 0 < amount t) (in_month (month r) txs))) \<and>
      expenses r
        = js_neg (double_sum (map (\<lambda>t. \<bar>amount t\<bar>)
            (filter (\<lambda>t. amount t < 0) (in_month (month r) txs)))) \<and>
      balance r
        = js_sub (double_sum (map amount (filter (\<lambda>t. 0 < amount t) (in_month (month r) txs))))
            (double_sum (map (\<lambda>t. \<bar>amount t\<bar>)
              (filter (\<lambda>t. amount t < 0) (in_month (month r) txs))))"
    by (auto simp: monthly_row_sums)
  have g: "?points \<noteq> [] \<longrightarrow> cumulative (last ?points) = ?run"
  proof
    assume "?points \<noteq> []"
    then have "included_months txs \<noteq> []" by auto
    then show "cumulative (last ?points) = ?run"
      by (rule cumulative_running)
  qed
  have h: "whole_amounts txs \<longrightarrow>
      (\<forall>r \<in> set ?rows.
         income r = Finite (sum_positive (in_month (month r) txs)) \<and>
         expenses r = Finite (- sum_abs_negative (in_month (month r) txs)) \<and>
         balance r
           = Finite (sum_positive (in_month (month r) txs)
               - sum_abs_negative (in_month (month r) txs))) \<and>
      (?points \<noteq> [] \<longrightarrow>
         cumulative (last ?points)
           = Finite (sum_list (map amount
               (filter (\<lambda>t. calendar_month t \<noteq> most_recent_month txs) txs))))"
  proof
    assume w: "whole_amounts txs"
    have "\<forall>r \<in> set ?rows.
         income r = Finite (sum_positive (in_month (month r) txs)) \<and>
         expenses r = Finite (- sum_abs_negative (in_month (month r) txs)) \<and>
         balance r
           = Finite (sum_positive (in_month (month r) txs)
               - sum_abs_negative (in_month (month r) txs))"
      by (auto simp: monthly_row_sums month_sums_whole [OF w])
    moreover have "?points \<noteq> [] \<longrightarrow>
         cumulative (last ?points)
           = Finite (sum_list (map amount
               (filter (\<lambda>t. calendar_month t \<noteq> most_recent_month txs) txs)))"
      using g running_total_whole [OF w assms] by simp
    ultimately show "(\<forall>r \<in> set ?rows.
         income r = Finite (sum_positive (in_month (month r) txs)) \<and>
         expenses r = Finite (- sum_abs_negative (in_month (month r) txs)) \<and>
         balance r
           = Finite (sum_positive (in_month (month r) txs)
               - sum_abs_negative (in_month (month r) txs))) \<and>
      (?points \<noteq> [] \<longrightarrow>
         cumulative (last ?points)
           = Finite (sum_list (map amount
               (filter (\<lambda>t. calendar_month t \<noteq> most_recent_month txs) txs))))"
      by (rule conjI)
  qed
  from a b c d included_months_props [of txs] e f g h show ?thesis by blast
qed


lemma quarter_valid: "\<forall>t \<in> set quarter. valid_date (date t)"
  by (simp add: quarter_def tx_def valid_date_def validateDate_def daysInMonth_def
      isLeapYearIndex_def year_of_def month_of_def day_of_def)

lemma quarter_whole: "whole_amounts quarter"
  by (simp add: whole_amounts_def quarter_def tx_def)

lemma quarter_keys:
  "map monthKey quarter =
     [Inr ''2024-02'', Inr ''2024-01'', Inr ''2024-03'', Inr ''2024-01'', Inr ''2024-02'']"
  by (simp add: quarter_def tx_def monthKey_def parseISO_def validateDate_def daysInMonth_def
      isLeapYearIndex_def startOfMonth_def format_def format_yyyy_MM_def
      addLeadingZeros_4 addLeadingZeros_2 year_of_def month_of_def day_of_def digit_chars)

lemma quarter_grouped:
  "groupByMonth quarter =
     Inr [(''2024-02'', [tx 1 (2024, 2, 10) 1500, tx 5 (2024, 2, 11) (- 800)]),
          (''2024-01'', [tx 2 (2024, 1, 5) (- 42), tx 4 (2024, 1, 27) 2000]),
          (''2024-03'', [tx 3 (2024, 3, 1) (- 10)])]"
  using quarter_keys by (simp add: groupByMonth_def quarter_def)

lemma quarter_sorted:
  "months_of [(''2024-02'', a), (''2024-01'', b), (''2024-03'', c)] = [''2024-01'', ''2024-02'']"
  by (simp add: months_of_def less_char_def insort_key.simps)

lemma quarter_rows:
  "calculateMonthlyAggregates quarter =
     Inr [\<lparr>month = ''2024-01'', income = Finite 2000, expenses = Finite (- 42),
           balance = Finite 1958\<rparr>,
          \<lparr>month = ''2024-02'', income = Finite 1500, expenses = Finite (- 800),
           balance = Finite 700\<rparr>]"
  by (simp add: calculateMonthlyAggregates_def quarter_grouped quarter_sorted
      monthly_row_def reduce_sum_def js_sub_def tx_def to_double_whole)

lemma quarter_points:
  "calculateCumulative quarter =
     Inr [\<lparr>cmonth = ''2024-01'', cumulative = Finite 1958\<rparr>,
          \<lparr>cmonth = ''2024-02'', cumulative = Finite 2658\<rparr>]"
  by (simp add: calculateCumulative_def quarter_grouped quarter_sorted reduce_sum_def tx_def
      to_double_whole)

lemma quarter_labels:
  "map month_label quarter = [''2024-02'', ''2024-01'', ''2024-03'', ''2024-01'', ''2024-02'']"
  by (simp add: quarter_def tx_def month_label_def addLeadingZeros_4 addLeadingZeros_2
      year_of_def month_of_def digit_chars)

lemma quarter_months: "included_months quarter = [''2024-01'', ''2024-02'']"
  by (simp add: included_months_def quarter_labels less_char_def insort_key.simps)

lemma quarter_recent: "most_recent_month quarter = (2024, 3)"
  by (simp add: most_recent_month_def quarter_def tx_def calendar_month_def year_of_def
      month_of_def)

theorem monthly_and_cumulative_witness:
  "list_all (\<lambda>t. valid_date (date t)) quarter \<and> whole_amounts quarter \<and>
   calculateMonthlyAggregates quarter =
     Inr [\<lparr>month = ''2024-01'', income = Finite 2000, expenses = Finite (- 42),
           balance = Finite 1958\<rparr>,
          \<lparr>month = ''2024-02'', income = Finite 1500, expenses = Finite (- 800),
           balance = Finite 700\<rparr>] \<and>
   calculateCumulative quarter =
     Inr [\<lparr>cmonth = ''2024-01'', cumulative = Finite 1958\<rparr>,
          \<lparr>cmonth = ''2024-02'', cumulative = Finite 2658\<rparr>] \<and>
   included_months quarter = [''2024-01'', ''2024-02''] \<and>
   most_recent_month quarter = (2024, 3) \<and>
   month_label (tx 3 (2024, 3, 1) (- 10)) \<notin> set (included_months quarter) \<and>
   sum_list (map amount (filter (\<lambda>t. calendar_month t \<noteq> most_recent_month quarter) quarter))
     = 2658"
proof -
  from monthly_and_cumulative [OF quarter_valid]
  obtain rows points where calc: "calculateMonthlyAggregates quarter = Inr rows"
      "calculateCumulative quarter = Inr points"
    and recent: "\<forall>t \<in> set quarter.
      (month_label t \<in> set (included_months quarter))
        = (calendar_month t \<noteq> most_recent_month quarter)"
    and total: "whole_amounts quarter \<longrightarrow> (points \<noteq> [] \<longrightarrow> cumulative (last points)
      = Finite (sum_list (map amount
          (filter (\<lambda>t. calendar_month t \<noteq> most_recent_month quarter) quarter))))"
    by blast
  from calc(2) have p: "points =
      [\<lparr>cmonth = ''2024-01'', cumulative = Finite 1958\<rparr>,
       \<lparr>cmonth = ''2024-02'', cumulative = Finite 2658\<rparr>]"
    by (simp add: quarter_points)
  with total quarter_whole have t: "sum_list (map amount
      (filter (\<lambda>t. calendar_month t \<noteq> most_recent_month quarter) quarter)) = 2658"
    by simp
  have "tx 3 (2024, 3, 1) (- 10) \<in> set quarter" by (simp add: quarter_def)
  moreover have "calendar_month (tx 3 (2024, 3, 1) (- 10)) = most_recent_month quarter"
    by (simp add: quarter_recent calendar_month_def tx_def year_of_def month_of_def)
  ultimately have n: "month_label (tx 3 (2024, 3, 1) (- 10)) \<notin> set (included_months quarter)"
    using recent by blast
  have v: "list_all (\<lambda>t. valid_date (date t)) quarter"
    using quarter_valid by (simp add: list_all_iff)
  from v quarter_whole quarter_rows quarter_points quarter_months quarter_recent n t
  show ?thesis
    by (simp only: simp_thms)
qed

text \<open>
  The doubles of the sample \<open>tenths\<close>: the amounts are the doubles nearest to 0.1, 0.2
  and 0.3, the sum of the second and the third is the double 0.5, and the sum of the first
  and 0.5 is rounded down to the double nearest to 0.6. Added in the order of the list,
  the three amounts give the next double above.
\<close>

lemma tenths_doubles:
  "to_double (3602879701896397 / 36028797018963968) = Finite (3602879701896397 / 36028797018963968)"
  "to_double (3602879701896397 / 18014398509481984) = Finite (3602879701896397 / 18014398509481984)"
  "to_double (5404319552844595 / 18014398509481984) = Finite (5404319552844595 / 18014398509481984)"
  "to_double (1 / 2) = Finite (1 / 2)"
proof -
  show "to_double (3602879701896397 / 36028797018963968)
      = Finite (3602879701896397 / 36028797018963968)"
    by (subst to_double_at [where k = "- 4"]) (simp_all add: round_half_even_def Let_def)
  show "to_double (3602879701896397 / 18014398509481984)
      = Finite (3602879701896397 / 18014398509481984)"
    by (subst to_double_at [where k = "- 3"]) (simp_all add: round_half_even_def Let_def)
  show "to_double (5404319552844595 / 18014398509481984)
      = Finite (5404319552844595 / 18014398509481984)"
    by (subst to_double_at [where k = "- 2"]) (simp_all add: round_half_even_def Let_def)
  show "to_double (1 / 2) = Finite (1 / 2)"
    by (subst to_double_at [where k = "- 1"]) (simp_all add: round_half_even_def Let_def)
qed

lemma tenths_sums:
  "to_double (21617278211378381 / 36028797018963968) = Finite (5404319552844595 / 9007199254740992)"
  "to_double (10808639105689191 / 36028797018963968) = Finite (1351079888211149 / 4503599627370496)"
  "to_double (10808639105689191 / 18014398509481984) = Finite (1351079888211149 / 2251799813685248)"
proof -
  show "to_double (21617278211378381 / 36028797018963968)
      = Finite (5404319552844595 / 9007199254740992)"
    by (subst to_double_at [where k = "- 1"]) (simp_all add: round_half_even_def Let_def)
  show "to_double (10808639105689191 / 36028797018963968)
      = Finite (1351079888211149 / 4503599627370496)"
    by (subst to_double_at [where k = "- 2"]) (simp_all add: round_half_even_def Let_def)
  show "to_double (10808639105689191 / 18014398509481984)
      = Finite (1351079888211149 / 2251799813685248)"
    by (subst to_double_at [where k = "- 1"]) (simp_all add: round_half_even_def Let_def)
qed

lemma tenths_keys:
  "map monthKey tenths = [Inr ''2024-01'', Inr ''2024-02'', Inr ''2024-02'', Inr ''2024-03'']"
  by (simp add: tenths_def tx_def monthKey_def parseISO_def validateDate_def daysInMonth_def
      isLeapYearIndex_def startOfMonth_def format_def format_yyyy_MM_def
      addLeadingZeros_4 addLeadingZeros_2 year_of_def month_of_def day_of_def digit_chars)

lemma tenths_grouped:
  "groupByMonth tenths =
     Inr [(''2024-01'', [tx 1 (2024, 1, 15) (3602879701896397 / 36028797018963968)]),
          (''2024-02'', [tx 2 (2024, 2, 3) (3602879701896397 / 18014398509481984),
                         tx 3 (2024, 2, 20) (5404319552844595 / 18014398509481984)]),
          (''2024-03'', [tx 4 (2024, 3, 1) (- 10)])]"
  using tenths_keys by (simp add: groupByMonth_def tenths_def)

lemma tenths_sorted:
  "months_of [(''2024-01'', a), (''2024-02'', b), (''2024-03'', c)] = [''2024-01'', ''2024-02'']"
  by (simp add: months_of_def less_char_def insort_key.simps)

lemma tenths_points:
  "calculateCumulative tenths =
     Inr [\<lparr>cmonth = ''2024-01'', cumulative = Finite (3602879701896397 / 36028797018963968)\<rparr>,
          \<lparr>cmonth = ''2024-02'', cumulative = Finite (5404319552844595 / 9007199254740992)\<rparr>]"
  by (simp add: calculateCumulative_def tenths_grouped tenths_sorted reduce_sum_def tx_def
      tenths_doubles tenths_sums)

lemma tenths_recent: "most_recent_month tenths = (2024, 3)"
  by (simp add: most_recent_month_def tenths_def tx_def calendar_month_def year_of_def
      month_of_def)

lemma tenths_included:
  "map amount (filter (\<lambda>t. calendar_month t \<noteq> most_recent_month tenths) tenths) =
     [3602879701896397 / 36028797018963968, 3602879701896397 / 18014398509481984,
      5404319552844595 / 18014398509481984]"
  by (simp add: tenths_recent) (simp add: tenths_def tx_def calendar_month_def year_of_def month_of_def)

text \<open>
  Claim C10 as stated has the cumulative value of the last included month equal the sum of
  the amounts of all transactions of all included months. At the sample \<open>tenths\<close>, with
  valid dates and amounts that are the doubles of 0.1, 0.2 and 0.3, the cumulative value of
  February is the double nearest to 0.6; the sum of the three amounts is no double and lies
  above it, and their double sum in the order of the list is the next double above.
\<close>

theorem cumulative_rounding_counterexample:
  "list_all (\<lambda>t. valid_date (date t) \<and> to_double (amount t) = Finite (amount t)) tenths \<and>
   map (\<lambda>t. Finite (amount t)) tenths
     = [to_double (1 / 10), to_double (2 / 10), to_double (3 / 10), Finite (- 10)] \<and>
   calculateCumulative tenths =
     Inr [\<lparr>cmonth = ''2024-01'', cumulative = Finite (3602879701896397 / 36028797018963968)\<rparr>,
          \<lparr>cmonth = ''2024-02'', cumulative = Finite (5404319552844595 / 9007199254740992)\<rparr>] \<and>
   sum_list (map amount (filter (\<lambda>t. calendar_month t \<noteq> most_recent_month tenths) tenths))
     = 21617278211378381 / 36028797018963968 \<and>
   Finite (5404319552844595 / 9007199254740992)
     \<noteq> Finite (sum_list (map amount
          (filter (\<lambda>t. calendar_month t \<noteq> most_recent_month tenths) tenths))) \<and>
   double_sum (map amount (filter (\<lambda>t. calendar_month t \<noteq> most_recent_month tenths) tenths))
     = Finite (1351079888211149 / 2251799813685248)"
proof -
  have v: "list_all (\<lambda>t. valid_date (date t) \<and> to_double (amount t) = Finite (amount t)) tenths"
    by (simp add: tenths_def tx_def valid_date_def validateDate_def daysInMonth_def
        isLeapYearIndex_def year_of_def month_of_def day_of_def tenths_doubles to_double_whole)
  have s: "sum_list (map amount
      (filter (\<lambda>t. calendar_month t \<noteq> most_recent_month tenths) tenths))
      = 21617278211378381 / 36028797018963968"
    by (simp add: tenths_included)
  have n: "Finite (5404319552844595 / 9007199254740992)
      \<noteq> Finite (sum_list (map amount
          (filter (\<lambda>t. calendar_month t \<noteq> most_recent_month tenths) tenths)))"
    by (simp add: s)
  have d: "double_sum (map amount
      (filter (\<lambda>t. calendar_month t \<noteq> most_recent_month tenths) tenths))
      = Finite (1351079888211149 / 2251799813685248)"
    by (simp add: tenths_included double_sum_def tenths_doubles tenths_sums)
  have l: "map (\<lambda>t. Finite (amount t)) tenths
      = [to_double (1 / 10), to_double (2 / 10), to_double (3 / 10), Finite (- 10)]"
    unfolding nearest_doubles by (simp add: tenths_def tx_def)
  from v l tenths_points s n d show ?thesis by (simp only: simp_thms)
qed

text \<open>
  What does hold of \<open>applyClientFilters\<close>: the result is the list of all transactions
  with some removed, every retained transaction has the key of a cash account and meets
  the special and amount filters, and it belongs to a cash account when no bank name holds
  the separator.
\<close>

lemma split_at_separator:
  assumes "x \<notin> set xs" and "x \<notin> set xs'" and "xs @ x # ys = xs' @ x # ys'"
  shows "xs = xs' \<and> ys = ys'"
  using assms
proof (induction xs arbitrary: xs')
  case Nil
  then show ?case by (cases xs') auto
next
  case (Cons a xs)
  then show ?case by (cases xs') auto
qed

lemma account_key_inject:
  assumes "account_key a = account_key t"
    and "CHR ''|'' \<notin> set (bank_name a)" and "CHR ''|'' \<notin> set (bank_name t)"
  shows "bank_name a = bank_name t \<and> account_name a = account_name t"
  using split_at_separator [OF assms(2) assms(3)] assms(1) by (simp add: account_key_def)

lemma filter_when: "(if c then filter P xs else xs) = filter (\<lambda>x. c \<longrightarrow> P x) xs"
  by simp

lemma filter_bound:
  "(case v of None \<Rightarrow> xs | Some b \<Rightarrow> filter (P b) xs)
     = filter (\<lambda>x. case v of None \<Rightarrow> True | Some b \<Rightarrow> P b x) xs"
  by (cases v) simp_all

lemma applyClientFilters_filter:
  "filteredTransactions (applyClientFilters s) = filter (passes s) (allTransactions s)"
proof -
  have "filteredTransactions (applyClientFilters s)
      = filter (\<lambda>t. case maxAmount (filters s) of None \<Rightarrow> True | Some hi \<Rightarrow> amount t \<le> hi)
         (filter (\<lambda>t. case minAmount (filters s) of None \<Rightarrow> True | Some lo \<Rightarrow> lo \<le> amount t)
           (filter (\<lambda>t. excludeSpecial (filters s) \<longrightarrow> \<not> is_special t)
             (filter (\<lambda>t. 0 < length (accountNames (filters s)) \<and>
                  length (accountNames (filters s)) < length (availableAccounts s) \<longrightarrow>
                  account_name t \<in> set (accountNames (filters s)))
               (filter (\<lambda>t. 0 < length (bankNames (filters s)) \<and>
                    length (bankNames (filters s)) < length (availableBanks s) \<longrightarrow>
                    bank_name t \<in> set (bankNames (filters s)))
                 (filter (\<lambda>t. account_key t \<in> set (map account_key (cashAccounts s)))
                   (allTransactions s))))))"
    unfolding applyClientFilters_def Let_def
    by (simp only: filter_when filter_bound) simp
  also have "\<dots> = filter (passes s) (allTransactions s)"
    unfolding filter_filter passes_def by (rule filter_cong) auto
  finally show ?thesis .
qed

lemma applyClientFilters_subseq:
  "subseq (filteredTransactions (applyClientFilters s)) (allTransactions s)"
  by (simp add: applyClientFilters_filter)

lemma applyClientFilters_retained:
  assumes "t \<in> set (filteredTransactions (applyClientFilters s))"
  shows "t \<in> set (allTransactions s)"
    and "account_key t \<in> set (map account_key (cashAccounts s))"
    and "excludeSpecial (filters s) \<Longrightarrow> \<not> is_special t"
    and "minAmount (filters s) = Some lo \<Longrightarrow> lo \<le> amount t"
    and "maxAmount (filters s) = Some hi \<Longrightarrow> amount t \<le> hi"
  using assms by (auto simp: applyClientFilters_filter passes_def)

lemma applyClientFilters_cash:
  assumes "t \<in> set (filteredTransactions (applyClientFilters s))"
    and "\<forall>a \<in> set (cashAccounts s). CHR ''|'' \<notin> set (bank_name a)"
    and "CHR ''|'' \<notin> set (bank_name t)"
  shows "in_cash_account (cashAccounts s) t"
proof -
  from applyClientFilters_retained(2) [OF assms(1)]
  obtain a where a: "a \<in> set (cashAccounts s)" "account_key a = account_key t"
    by auto
  with assms(2,3) have "bank_name a = bank_name t \<and> account_name a = account_name t"
    by (intro account_key_inject) auto
  with a(1) show ?thesis
    by (auto simp: in_cash_account_def list_ex_iff)
qed

text \<open>
  Claim C9 at a bank name that holds the separator of the key: the transaction of account
  \<^verbatim>\<open>b|c\<close> of bank \<^verbatim>\<open>a\<close> has the key of the cash account \<^verbatim>\<open>c\<close> of bank \<^verbatim>\<open>a|b\<close>, so
  \<open>applyClientFilters\<close> retains it although it belongs to no cash account.
\<close>

theorem applyClientFilters_key_collision:
  "filteredTransactions (applyClientFilters piped_dashboard) = [piped_transaction] \<and>
   \<not> in_cash_account (cashAccounts piped_dashboard) piped_transaction \<and>
   account_key piped_transaction = account_key piped_account"
  by (simp add: applyClientFilters_def piped_dashboard_def piped_transaction_def piped_account_def
      account_key_def in_cash_account_def)

section \<open>Properties of the flexible number input\<close>

lemma conc_iff: "(w \<in> conc A B) = (\<exists>u v. w = u @ v \<and> u \<in> A \<and> v \<in> B)"
  by (auto simp: conc_def)

lemma nullable_lang: "nullable r = ([] \<in> lang r)"
  by (induction r) (auto simp: conc_iff star_empty)

lemma star_cons:
  assumes "w \<in> star A" and "w = x # s"
  shows "\<exists>u v. s = u @ v \<and> x # u \<in> A \<and> v \<in> star A"
  using assms
proof (induction arbitrary: s rule: star.induct)
  case star_empty
  then show ?case by simp
next
  case (star_more u v)
  show ?case
  proof (cases u)
    case Nil
    with star_more show ?thesis by simp
  next
    case (Cons y u')
    with star_more.prems have "s = u' @ v" "y = x" by simp_all
    with Cons star_more.hyps show ?thesis by blast
  qed
qed

lemma deriv_lang: "(s \<in> lang (deriv x r)) = (x # s \<in> lang r)"
proof (induction r arbitrary: s)
  case (Seq r1 r2)
  have "(x # s \<in> conc (lang r1) (lang r2))
      = ((\<exists>u v. s = u @ v \<and> x # u \<in> lang r1 \<and> v \<in> lang r2) \<or> ([] \<in> lang r1 \<and> x # s \<in> lang r2))"
    unfolding conc_iff by (auto simp: Cons_eq_append_conv)
  with Seq show ?case
    by (auto simp: conc_iff nullable_lang)
next
  case (Star r)
  have "(x # s \<in> star (lang r)) = (\<exists>u v. s = u @ v \<and> x # u \<in> lang r \<and> v \<in> star (lang r))"
  proof
    assume "x # s \<in> star (lang r)"
    then show "\<exists>u v. s = u @ v \<and> x # u \<in> lang r \<and> v \<in> star (lang r)"
      by (rule star_cons) simp
  next
    assume "\<exists>u v. s = u @ v \<and> x # u \<in> lang r \<and> v \<in> star (lang r)"
    then obtain u v where "s = u @ v" "x # u \<in> lang r" "v \<in> star (lang r)" by blast
    then have "(x # u) @ v \<in> star (lang r)" by (intro star_more)
    with \<open>s = u @ v\<close> show "x # s \<in> star (lang r)" by simp
  qed
  with Star show ?case by (auto simp: conc_iff)
qed auto

lemma test_lang: "test r s = (s \<in> lang r)"
  by (induction s arbitrary: r) (simp_all add: nullable_lang deriv_lang)


lemma is_digit_code: "is_digit c = (48 \<le> (of_char c :: nat) \<and> (of_char c :: nat) \<le> 57)"
  by (simp add: is_digit_def less_eq_char_def)

lemma digit_not_special:
  assumes "is_digit c"
  shows "c \<noteq> CHR ''.''" "c \<noteq> CHR '',''" "c \<noteq> CHR ''-''" "c \<noteq> CHR ''+''" "c \<noteq> CHR ''I''"
    "\<not> is_space c"
  using assms by (auto simp: is_digit_code is_space_def)

lemma special_not_digit: "\<not> is_digit (CHR ''.'')" "\<not> is_digit (CHR '','')"
  by (simp_all add: is_digit_code)

lemma all_digits_simps [simp]:
  "all_digits []" "all_digits (c # cs) = (is_digit c \<and> all_digits cs)"
  "all_digits (xs @ ys) = (all_digits xs \<and> all_digits ys)"
  by (simp_all add: all_digits_def)

lemma digit_conc: "(c # v \<in> conc (lang Digit) B) = (is_digit c \<and> v \<in> B)"
proof
  assume "c # v \<in> conc (lang Digit) B"
  then show "is_digit c \<and> v \<in> B"
    by (auto simp: conc_iff Cons_eq_append_conv)
next
  assume a: "is_digit c \<and> v \<in> B"
  then have "[c] \<in> lang Digit" by simp
  with a have "[c] @ v \<in> conc (lang Digit) B"
    unfolding conc_iff by blast
  then show "c # v \<in> conc (lang Digit) B" by simp
qed

lemma digit_conc_Nil: "[] \<notin> conc (lang Digit) B"
  by (auto simp: conc_iff)

lemma lang_exactly_Digit: "(w \<in> lang (exactly n Digit)) = (all_digits w \<and> length w = n)"
proof (induction n arbitrary: w)
  case 0
  then show ?case by auto
next
  case (Suc n)
  then show ?case
    by (cases w) (simp_all add: digit_conc digit_conc_Nil del: lang.simps(3))
qed

lemma lang_at_most_Digit: "(w \<in> lang (at_most n Digit)) = (all_digits w \<and> length w \<le> n)"
proof (induction n arbitrary: w)
  case 0
  then show ?case by auto
next
  case (Suc n)
  then show ?case
    by (cases w) (simp_all add: digit_conc digit_conc_Nil del: lang.simps(3))
qed

lemma lang_between_Digit:
  "(w \<in> lang (between (Suc 0) 3 Digit)) = (all_digits w \<and> w \<noteq> [] \<and> length w \<le> 3)"
proof -
  have e: "lang (between (Suc 0) 3 Digit) = conc (lang Digit) (lang (at_most 2 Digit))"
  proof -
    have "conc (lang Digit) {[]} = lang Digit"
      by (auto simp: conc_def)
    then show ?thesis
      by (simp add: between_def del: at_most.simps lang.simps(3))
  qed
  show ?thesis
    unfolding e
    by (cases w) (auto simp: digit_conc digit_conc_Nil lang_at_most_Digit
        simp del: at_most.simps lang.simps(3))
qed

lemma star_Digit: "(w \<in> star (lang Digit)) = all_digits w"
proof
  assume "w \<in> star (lang Digit)"
  then show "all_digits w"
    by (induction rule: star.induct) auto
next
  assume "all_digits w"
  then show "w \<in> star (lang Digit)"
  proof (induction w)
    case Nil
    then show ?case by (simp add: star_empty)
  next
    case (Cons c w)
    then have "[c] \<in> lang Digit" "w \<in> star (lang Digit)" by auto
    then have "[c] @ w \<in> star (lang Digit)" by (rule star_more)
    then show ?case by simp
  qed
qed

lemma lang_one_or_more_Digit: "(w \<in> lang (one_or_more Digit)) = (all_digits w \<and> w \<noteq> [])"
  by (cases w) (simp_all add: one_or_more_def digit_conc digit_conc_Nil star_Digit del: lang.simps(3))

lemma groups_in_star:
  assumes "list_all (\<lambda>g. all_digits g \<and> length g = 3) groups"
  shows "concat (map (\<lambda>g. CHR ''.'' # g) groups) \<in> lang (Star (Seq (Chr (CHR ''.'')) (exactly 3 Digit)))"
  using assms
proof (induction groups)
  case Nil
  then show ?case by (simp add: star_empty)
next
  case (Cons g groups)
  then have g: "g \<in> lang (exactly 3 Digit)" by (simp add: lang_exactly_Digit)
  have "[CHR ''.''] @ g \<in> conc (lang (Chr (CHR ''.''))) (lang (exactly 3 Digit))"
    unfolding conc_iff using g by (intro exI conjI) (rule refl, simp, assumption)
  then have "CHR ''.'' # g \<in> lang (Seq (Chr (CHR ''.'')) (exactly 3 Digit))" by simp
  moreover from Cons have "concat (map (\<lambda>g. CHR ''.'' # g) groups)
      \<in> star (lang (Seq (Chr (CHR ''.'')) (exactly 3 Digit)))" by simp
  ultimately have "(CHR ''.'' # g) @ concat (map (\<lambda>g. CHR ''.'' # g) groups)
      \<in> star (lang (Seq (Chr (CHR ''.'')) (exactly 3 Digit)))"
    by (rule star_more)
  then show ?case by simp
qed

lemma european_matches:
  assumes "european_parts ds groups fs"
  shows "test european_pattern (european_string ds groups fs)"
proof -
  from assms have d: "ds \<in> lang (between 1 3 Digit)"
    using lang_between_Digit [of ds] by (auto simp: european_parts_def)
  from assms have g: "concat (map (\<lambda>g. CHR ''.'' # g) groups)
      \<in> lang (Star (Seq (Chr (CHR ''.'')) (exactly 3 Digit)))"
    by (intro groups_in_star) (simp add: european_parts_def)
  from assms have f: "fs \<in> lang (one_or_more Digit)"
    by (simp add: european_parts_def lang_one_or_more_Digit)
  have c: "[CHR '',''] @ fs \<in> lang (Seq (Chr (CHR '','')) (one_or_more Digit))"
    using f unfolding lang.simps conc_iff by blast
  have "concat (map (\<lambda>g. CHR ''.'' # g) groups) @ ([CHR '',''] @ fs)
      \<in> lang (Seq (Star (Seq (Chr (CHR ''.'')) (exactly 3 Digit))) (Seq (Chr (CHR '','')) (one_or_more Digit)))"
    using g c unfolding lang.simps(6) conc_iff by blast
  with d have "ds @ (concat (map (\<lambda>g. CHR ''.'' # g) groups) @ ([CHR '',''] @ fs))
      \<in> lang european_pattern"
    unfolding european_pattern_def lang.simps(6) conc_iff by blast
  then show ?thesis
    by (simp add: test_lang european_string_def)
qed

lemma comma_matches:
  assumes "all_digits ds" "ds \<noteq> []" "all_digits fs" "fs \<noteq> []"
  shows "test comma_pattern (ds @ CHR '','' # fs)"
proof -
  from assms have d: "ds \<in> lang (one_or_more Digit)" and f: "fs \<in> lang (one_or_more Digit)"
    by (simp_all add: lang_one_or_more_Digit)
  have c: "[CHR '',''] @ fs \<in> lang (Seq (Chr (CHR '','')) (one_or_more Digit))"
    using f unfolding lang.simps conc_iff by blast
  with d have "ds @ ([CHR '',''] @ fs) \<in> lang comma_pattern"
    unfolding comma_pattern_def lang.simps(6) conc_iff by blast
  then show ?thesis by (simp add: test_lang)
qed

lemma european_starts_with_digit:
  assumes "test european_pattern t"
  shows "\<exists>d w. t = d # w \<and> is_digit d"
proof -
  from assms obtain u v where "t = u @ v" "u \<in> lang (between (Suc 0) 3 Digit)"
    by (auto simp: test_lang european_pattern_def conc_iff)
  then show ?thesis
    by (cases u) (auto simp: lang_between_Digit)
qed

lemma comma_starts_with_digit:
  assumes "test comma_pattern t"
  shows "\<exists>d w. t = d # w \<and> is_digit d"
proof -
  from assms obtain u v where "t = u @ v" "u \<in> lang (one_or_more Digit)"
    by (auto simp: test_lang comma_pattern_def conc_iff)
  then show ?thesis
    by (cases u) (auto simp: lang_one_or_more_Digit)
qed


lemma digits_prefix:
  assumes "all_digits ip" and "\<not> is_digit c"
  shows "takeWhile is_digit (ip @ c # r) = ip" and "dropWhile is_digit (ip @ c # r) = c # r"
  using assms by (induction ip) simp_all

lemma digits_whole:
  assumes "all_digits fp"
  shows "takeWhile is_digit fp = fp" and "dropWhile is_digit fp = []"
  using assms by (induction fp) simp_all

lemma parseFloat_digit:
  assumes "is_digit d"
  shows "parseFloat (d # w) \<noteq> NaN"
proof -
  have i: "take 8 (d # w) \<noteq> ''Infinity''"
    using digit_not_special(5) [OF assms] by (cases w) auto
  have t: "takeWhile is_digit (d # w) \<noteq> []" using assms by simp
  have "parseFloat (d # w) = parse_unsigned 1 (d # w)"
    using digit_not_special [OF assms] by (simp add: parseFloat_def trimStart_def)
  with i t show ?thesis
    by (simp add: parse_unsigned_def Let_def to_double_not_NaN
        del: takeWhile.simps dropWhile.simps take_Suc_Cons)
qed

lemma parseFloat_decimal:
  assumes "all_digits ip" and "ip \<noteq> []" and "all_digits fp"
  shows "parseFloat (ip @ CHR ''.'' # fp) = to_double (decimal_value ip fp)"
proof -
  from assms(1,2) obtain d w where ip: "ip = d # w" "is_digit d"
    by (cases ip) auto
  have i: "take 8 (ip @ CHR ''.'' # fp) \<noteq> ''Infinity''"
    using digit_not_special(5) [OF ip(2)] ip(1) by auto
  have p: "parseFloat (ip @ CHR ''.'' # fp) = parse_unsigned 1 (ip @ CHR ''.'' # fp)"
    using digit_not_special [OF ip(2)] ip(1) by (simp add: parseFloat_def trimStart_def)
  note pre = digits_prefix [OF assms(1) special_not_digit(1), of fp]
  note all = digits_whole [OF assms(3)]
  show ?thesis
    unfolding p parse_unsigned_def Let_def pre
    using i assms(2) by (simp add: all exponent_factor_def)
qed

lemma remove_dots_digits: "all_digits xs \<Longrightarrow> remove_dots xs = xs"
  by (induction xs) (auto simp: remove_dots_def dest: digit_not_special(1))

lemma remove_dots_groups:
  "list_all (\<lambda>g. all_digits g \<and> length g = 3) groups \<Longrightarrow>
     remove_dots (concat (map (\<lambda>g. CHR ''.'' # g) groups)) = concat groups"
proof (induction groups)
  case Nil
  then show ?case by (simp add: remove_dots_def)
next
  case (Cons g groups)
  then have "remove_dots g = g" by (simp add: remove_dots_digits)
  with Cons show ?case by (simp add: remove_dots_def)
qed

lemma remove_dots_european:
  assumes "european_parts ds groups fs"
  shows "remove_dots (european_string ds groups fs) = (ds @ concat groups) @ CHR '','' # fs"
proof -
  from assms have "remove_dots ds = ds" "remove_dots fs = fs"
    "remove_dots (concat (map (\<lambda>g. CHR ''.'' # g) groups)) = concat groups"
    by (simp_all add: european_parts_def remove_dots_digits remove_dots_groups)
  then show ?thesis
    by (simp add: european_string_def remove_dots_def)
qed

lemma comma_to_dot_digits:
  "all_digits xs \<Longrightarrow> comma_to_dot (xs @ CHR '','' # fs) = xs @ CHR ''.'' # fs"
  by (induction xs) (auto dest: digit_not_special(2))

lemma all_digits_concat:
  "list_all (\<lambda>g. all_digits g \<and> length g = 3) groups \<Longrightarrow> all_digits (concat groups)"
  by (induction groups) simp_all

lemma parseFlexibleNumber_european:
  assumes "european_parts ds groups fs" and "trim v = european_string ds groups fs"
  shows "parseFlexibleNumber v = Some (to_double (decimal_value (ds @ concat groups) fs))"
proof -
  from assms(1) have d: "all_digits (ds @ concat groups)" "ds @ concat groups \<noteq> []" "all_digits fs"
    by (auto simp: european_parts_def all_digits_concat)
  have ne: "trim v \<noteq> []" "v \<noteq> []"
    using assms(2) by (auto simp: european_string_def trim_def)
  have m: "test european_pattern (trim v)"
    using european_matches [OF assms(1)] assms(2) by simp
  have "comma_to_dot (remove_dots (trim v)) = (ds @ concat groups) @ CHR ''.'' # fs"
    by (simp only: assms(2) remove_dots_european [OF assms(1)] comma_to_dot_digits [OF d(1)])
  then have "parseFloat (comma_to_dot (remove_dots (trim v)))
      = to_double (decimal_value (ds @ concat groups) fs)"
    by (simp only: parseFloat_decimal [OF d])
  with ne m show ?thesis
    by (simp add: parseFlexibleNumber_def Let_def)
qed

lemma parseFlexibleNumber_comma:
  assumes "all_digits ds" "ds \<noteq> []" "all_digits fs" "fs \<noteq> []" and "trim v = ds @ CHR '','' # fs"
  shows "parseFlexibleNumber v = Some (to_double (decimal_value ds fs))"
proof -
  have ne: "trim v \<noteq> []" "v \<noteq> []"
    using assms(5) by (auto simp: trim_def)
  have m: "test comma_pattern (trim v)"
    using comma_matches [OF assms(1-4)] assms(5) by simp
  have r: "remove_dots (trim v) = trim v"
    using assms(1,3) by (simp add: assms(5) remove_dots_def remove_dots_digits [unfolded remove_dots_def])
  have "comma_to_dot (trim v) = ds @ CHR ''.'' # fs"
    by (simp only: assms(5) comma_to_dot_digits [OF assms(1)])
  then have "parseFloat (comma_to_dot (trim v)) = to_double (decimal_value ds fs)"
    by (simp only: parseFloat_decimal [OF assms(1-3)])
  with ne m r show ?thesis
    by (simp add: parseFlexibleNumber_def Let_def)
qed

lemma keeps_leading_digit:
  assumes "is_digit d"
  shows "\<exists>w'. comma_to_dot (remove_dots (d # w)) = d # w'" and "\<exists>w'. comma_to_dot (d # w) = d # w'"
  using digit_not_special(1,2) [OF assms] by (simp_all add: remove_dots_def)

lemma parseFlexibleNumber_null:
  "(parseFlexibleNumber v = None) = (trim v = [] \<or> parseFloat (trim v) = NaN)"
proof (cases "trim v = []")
  case True
  then show ?thesis by (simp add: parseFlexibleNumber_def)
next
  case False
  then have v: "v \<noteq> []" by (auto simp: trim_def)
  show ?thesis
  proof (cases "test european_pattern (trim v) \<or> test comma_pattern (trim v)")
    case True
    then obtain d w where t: "trim v = d # w" "is_digit d"
      using european_starts_with_digit comma_starts_with_digit by blast
    from parseFloat_digit [OF t(2), of w] t(1) have "parseFloat (trim v) \<noteq> NaN" by simp
    with True False v show ?thesis
      by (auto simp: parseFlexibleNumber_def Let_def)
  next
    case False
    with \<open>trim v \<noteq> []\<close> v show ?thesis
      by (auto simp: parseFlexibleNumber_def Let_def)
  qed
qed

lemma parseFlexibleNumber_not_NaN: "parseFlexibleNumber v \<noteq> Some NaN"
proof (cases "v = [] \<or> trim v = []")
  case True
  then show ?thesis by (auto simp: parseFlexibleNumber_def)
next
  case False
  show ?thesis
  proof (cases "test european_pattern (trim v)")
    case True
    then obtain d w where t: "trim v = d # w" "is_digit d"
      using european_starts_with_digit by blast
    from keeps_leading_digit(1) [OF t(2), of w] obtain w'
      where "comma_to_dot (remove_dots (trim v)) = d # w'" using t(1) by auto
    with parseFloat_digit [OF t(2), of w']
    have "parseFloat (comma_to_dot (remove_dots (trim v))) \<noteq> NaN"
      by simp
    with True False show ?thesis by (auto simp: parseFlexibleNumber_def Let_def)
  next
    case no: False
    show ?thesis
    proof (cases "test comma_pattern (trim v)")
      case True
      then obtain d w where t: "trim v = d # w" "is_digit d"
        using comma_starts_with_digit by blast
      from keeps_leading_digit(2) [OF t(2), of w] obtain w'
        where "comma_to_dot (trim v) = d # w'" using t(1) by auto
      with parseFloat_digit [OF t(2), of w'] have "parseFloat (comma_to_dot (trim v)) \<noteq> NaN"
        by simp
      with True no False show ?thesis by (auto simp: parseFlexibleNumber_def Let_def)
    next
      case False
      with no \<open>\<not> (v = [] \<or> trim v = [])\<close> show ?thesis
        by (auto simp: parseFlexibleNumber_def Let_def)
    qed
  qed
qed

text \<open>
  A European input of at least 310 digits before the comma denotes a number beyond the
  largest double: the result is \<^verbatim>\<open>Infinity\<close>. An input that denotes a whole number below
  \<open>2 ^ 53\<close> is read exactly.
\<close>

lemma parseFlexibleNumber_overflow:
  assumes "european_parts ds groups fs" and "trim v = european_string ds groups fs"
    and "2 ^ 1024 \<le> decimal_value (ds @ concat groups) fs"
  shows "parseFlexibleNumber v = Some PosInfinity"
proof -
  have "0 \<le> decimal_value (ds @ concat groups) fs"
    by (simp add: decimal_value_def)
  with assms(3) to_double_overflow [of "decimal_value (ds @ concat groups) fs"]
  have "to_double (decimal_value (ds @ concat groups) fs) = PosInfinity" by simp
  with parseFlexibleNumber_european [OF assms(1,2)] show ?thesis by simp
qed

lemma parseFlexibleNumber_whole:
  assumes "european_parts ds groups fs" and "trim v = european_string ds groups fs"
    and "decimal_value (ds @ concat groups) fs \<in> \<int>"
    and "decimal_value (ds @ concat groups) fs < 2 ^ 53"
  shows "parseFlexibleNumber v = Some (Finite (decimal_value (ds @ concat groups) fs))"
proof -
  have "0 \<le> decimal_value (ds @ concat groups) fs"
    by (simp add: decimal_value_def)
  with assms(4) have "\<bar>decimal_value (ds @ concat groups) fs\<bar> < 2 ^ 53" by simp
  with assms(3) have "to_double (decimal_value (ds @ concat groups) fs)
      = Finite (decimal_value (ds @ concat groups) fs)"
    by (rule to_double_whole)
  with parseFlexibleNumber_european [OF assms(1,2)] show ?thesis by simp
qed

text \<open>
  Claim C8. \<open>parseFlexibleNumber\<close> is a total function that returns \<^verbatim>\<open>null\<close> or a number
  other than \<^verbatim>\<open>NaN\<close>. It returns \<^verbatim>\<open>null\<close> exactly when the input is empty or white space
  only, or when \<^verbatim>\<open>parseFloat\<close> cannot parse the trimmed input. When the trimmed input is
  one to three digits, dot-separated groups of three digits, a comma and a decimal part,
  the result is the JavaScript number of the decimal whose integer digits are the digits
  before the comma with the dots deleted and whose fraction digits are the digits after
  the comma: the double nearest to that decimal, or \<^verbatim>\<open>Infinity\<close> past the largest double.
  When the trimmed input is digits, a comma and digits, the comma is the decimal point in
  the same way.
\<close>

theorem parseFlexibleNumber_spec:
  "parseFlexibleNumber v \<noteq> Some NaN \<and>
   (parseFlexibleNumber v = None) = (trim v = [] \<or> parseFloat (trim v) = NaN) \<and>
   (european_parts ds groups fs \<and> trim v = european_string ds groups fs \<longrightarrow>
      parseFlexibleNumber v = Some (to_double (decimal_value (ds @ concat groups) fs))) \<and>
   (all_digits ip \<and> ip \<noteq> [] \<and> all_digits fp \<and> fp \<noteq> [] \<and> trim v = ip @ CHR '','' # fp \<longrightarrow>
      parseFlexibleNumber v = Some (to_double (decimal_value ip fp)))"
  using parseFlexibleNumber_not_NaN parseFlexibleNumber_null parseFlexibleNumber_european
    parseFlexibleNumber_comma
  by blast

theorem parseFlexibleNumber_spec_witness:
  "european_parts ''1'' [''000''] ''50'' \<and> trim '' 1.000,50 '' = european_string ''1'' [''000''] ''50'' \<and>
   parseFlexibleNumber '' 1.000,50 '' = Some (Finite (2001 / 2)) \<and>
   all_digits ''1000'' \<and> all_digits ''50'' \<and> trim ''1000,50'' = ''1000'' @ CHR '','' # ''50'' \<and>
   parseFlexibleNumber ''1000,50'' = Some (Finite (2001 / 2)) \<and>
   all_digits ''0'' \<and> all_digits ''1'' \<and> trim ''0,1'' = ''0'' @ CHR '','' # ''1'' \<and>
   parseFlexibleNumber ''0,1'' = Some (Finite (3602879701896397 / 36028797018963968)) \<and>
   parseFlexibleNumber ''   '' = None \<and> parseFlexibleNumber ''abc'' = None"
proof -
  have e: "european_parts ''1'' [''000''] ''50''"
    by (simp add: european_parts_def is_digit_code)
  have t: "trim '' 1.000,50 '' = european_string ''1'' [''000''] ''50''"
    by (simp add: trim_def is_space_def european_string_def)
  have c: "all_digits ''1000''" "all_digits ''50''" "''1000'' \<noteq> []" "''50'' \<noteq> []"
    by (simp_all add: is_digit_code)
  have u: "trim ''1000,50'' = ''1000'' @ CHR '','' # ''50''"
    by (simp add: trim_def is_space_def)
  have c0: "all_digits ''0''" "all_digits ''1''" "''0'' \<noteq> []" "''1'' \<noteq> []"
    by (simp_all add: is_digit_code)
  have u0: "trim ''0,1'' = ''0'' @ CHR '','' # ''1''"
    by (simp add: trim_def is_space_def)
  note h = nearest_doubles(5)
  have v1: "to_double (decimal_value (''1'' @ concat [''000'']) ''50'') = Finite (2001 / 2)"
    by (simp add: decimal_value_def digits_value_def digit_value_def h)
  have v2: "to_double (decimal_value ''1000'' ''50'') = Finite (2001 / 2)"
    by (simp add: decimal_value_def digits_value_def digit_value_def h)
  have v3: "to_double (decimal_value ''0'' ''1'')
      = Finite (3602879701896397 / 36028797018963968)"
    by (simp add: decimal_value_def digits_value_def digit_value_def nearest_doubles)
  have s: "trim ''   '' = []" by (simp add: trim_def is_space_def)
  have a: "parseFloat (trim ''abc'') = NaN"
    by (simp add: trim_def is_space_def parseFloat_def trimStart_def parse_unsigned_def
        is_digit_code)
  note th = parseFlexibleNumber_spec
  from th [of "'' 1.000,50 ''" "''1''" "[''000'']" "''50''"] e t v1
  have r1: "parseFlexibleNumber '' 1.000,50 '' = Some (Finite (2001 / 2))" by simp
  from th [of "''1000,50''" _ _ _ "''1000''" "''50''"] c u v2
  have r2: "parseFlexibleNumber ''1000,50'' = Some (Finite (2001 / 2))" by simp
  from th [of "''0,1''" _ _ _ "''0''" "''1''"] c0 u0 v3
  have r0: "parseFlexibleNumber ''0,1''
      = Some (Finite (3602879701896397 / 36028797018963968))" by simp
  from th [of "''   ''"] s have r3: "parseFlexibleNumber ''   '' = None" by simp
  from th [of "''abc''"] a have r4: "parseFlexibleNumber ''abc'' = None" by simp
  from e t r1 c u r2 c0 u0 r0 r3 r4 show ?thesis by simp
qed

end
